theory Spec2Isabelle
  imports Complex_Main "HOL-Library.Word"
begin

unbundle bit_operations_syntax

section \<open>Arithmetic on float32\<close>

text \<open>
  The Go code computes on \<^verbatim>\<open>float32\<close>. The operations it uses are taken as a
  parameter: a record of the zero value, addition, multiplication, division, the rounded
  square root \<^verbatim>\<open>float32(math.Sqrt(float64(x)))\<close>, and the comparisons \<^verbatim>\<open>==\<close>
  and \<^verbatim>\<open><\<close>. Every function below that computes on floats takes this record
  first. Nothing is assumed about the operations unless a theorem says so.
\<close>

record 'f float_ops =
  f_zero :: 'f
  f_add :: "'f \<Rightarrow> 'f \<Rightarrow> 'f"
  f_mul :: "'f \<Rightarrow> 'f \<Rightarrow> 'f"
  f_div :: "'f \<Rightarrow> 'f \<Rightarrow> 'f"
  f_sqrt :: "'f \<Rightarrow> 'f"
  f_eq :: "'f \<Rightarrow> 'f \<Rightarrow> bool"
  f_lt :: "'f \<Rightarrow> 'f \<Rightarrow> bool"

text \<open>
  Exact arithmetic on the reals. On the inputs of the concrete examples below (vectors of
  zeros and ones) float32 arithmetic is exact and agrees with it.
\<close>

definition exact_ops :: "real float_ops" where
  "exact_ops = \<lparr>f_zero = 0, f_add = (+), f_mul = (*), f_div = (/), f_sqrt = sqrt,
     f_eq = (=), f_lt = (<)\<rparr>"

section \<open>internal/vector/vector.go\<close>

datatype error =
    ErrDimensionMismatch
  | ErrZeroVector
  | SetDimensionMismatch int int
  | NormalizeVectorFailed error
  | NormalizeQueryFailed error
  | PanicIndexOutOfRange

text \<open>\<^verbatim>\<open>Magnitude\<close>: the loop \<^verbatim>\<open>sum += val * val\<close> from a zero sum, then the root.\<close>

definition Magnitude :: "'f float_ops \<Rightarrow> 'f list \<Rightarrow> 'f" where
  "Magnitude ops v =
     f_sqrt ops (foldl (\<lambda>sum val. f_add ops sum (f_mul ops val val)) (f_zero ops) v)"

definition Normalize :: "'f float_ops \<Rightarrow> 'f list \<Rightarrow> error + 'f list" where
  "Normalize ops v =
     (let magnitude = Magnitude ops v
      in if f_eq ops magnitude (f_zero ops) then Inl ErrZeroVector
         else Inr (map (\<lambda>val. f_div ops val magnitude) v))"

definition DotProduct :: "'f float_ops \<Rightarrow> 'f list \<Rightarrow> 'f list \<Rightarrow> error + 'f" where
  "DotProduct ops a b =
     (if length a \<noteq> length b then Inl ErrDimensionMismatch
      else Inr (foldl (\<lambda>sum (x, y). f_add ops sum (f_mul ops x y)) (f_zero ops) (zip a b)))"

record 'f SearchResult =
  Key :: string
  Similarity :: 'f
  Distance :: 'f

section \<open>internal/storage/storage.go: the store\<close>

definition ShardCount :: nat where
  "ShardCount = 32"

text \<open>
  A shard is its map from keys to vectors (the lock and the padding carry no data). The
  store is the array of shards and the dimension, an \<^verbatim>\<open>int32\<close> held as an integer.
\<close>

record 'f Storage =
  shards :: "(string \<rightharpoonup> 'f list) list"
  dim :: int

text \<open>The conversion \<^verbatim>\<open>int32(n)\<close> of a Go \<^verbatim>\<open>int\<close>: two's complement wrap-around.\<close>

definition int32 :: "int \<Rightarrow> int" where
  "int32 n = (n + 2 ^ 31) mod 2 ^ 32 - 2 ^ 31"

definition New :: "'f Storage" where
  "New = \<lparr>shards = map (\<lambda>i. Map.empty) [0..<ShardCount], dim = 0\<rparr>"

text \<open>\<^verbatim>\<open>hash/fnv\<close>, \<^verbatim>\<open>New32a\<close>: FNV-1a on 32 bits, over the bytes of the key.\<close>

definition fnv32a :: "string \<Rightarrow> 32 word" where
  "fnv32a key = foldl (\<lambda>h c. (h XOR of_char c) * 16777619) 2166136261 key"

definition getShard :: "string \<Rightarrow> nat" where
  "getShard key = unat (fnv32a key mod 32)"

text \<open>\<^verbatim>\<open>atomic.Int32.CompareAndSwap\<close>, run alone: swap when the old value is there.\<close>

definition CompareAndSwap :: "'f Storage \<Rightarrow> int \<Rightarrow> int \<Rightarrow> 'f Storage" where
  "CompareAndSwap s old new = (if dim s = old then s\<lparr>dim := new\<rparr> else s)"

text \<open>
  \<^verbatim>\<open>Set\<close> returns its error (\<open>None\<close> for \<^verbatim>\<open>nil\<close>) and the store it leaves behind.
\<close>

definition Set :: "'f float_ops \<Rightarrow> 'f Storage \<Rightarrow> string \<Rightarrow> 'f list \<Rightarrow> error option \<times> 'f Storage" where
  "Set ops s key values =
     (let s1 = (if dim s = 0 then CompareAndSwap s 0 (int32 (int (length values))) else s);
          d = dim s1
      in if int (length values) \<noteq> d
         then (Some (SetDimensionMismatch d (int (length values))), s1)
         else (case Normalize ops values of
                 Inl err \<Rightarrow> (Some (NormalizeVectorFailed err), s1)
               | Inr normalized \<Rightarrow>
                   (None, s1\<lparr>shards := (shards s1)
                      [getShard key := (shards s1 ! getShard key)(key \<mapsto> normalized)]\<rparr>)))"

definition Get :: "'f Storage \<Rightarrow> string \<Rightarrow> 'f list option" where
  "Get s key = (shards s ! getShard key) key"

definition Delete :: "'f Storage \<Rightarrow> string \<Rightarrow> bool \<times> 'f Storage" where
  "Delete s key =
     (let sh = shards s ! getShard key;
          exists = (sh key \<noteq> None)
      in (exists,
          if exists then s\<lparr>shards := (shards s)[getShard key := sh(key := None)]\<rparr> else s))"

definition Count :: "'f Storage \<Rightarrow> int" where
  "Count s = foldl (\<lambda>count i. count + int (card (dom (shards s ! i)))) 0 [0..<ShardCount]"

definition Clear :: "'f Storage \<Rightarrow> 'f Storage" where
  "Clear s =
     (fold (\<lambda>i s'. s'\<lparr>shards := (shards s')[i := Map.empty]\<rparr>) [0..<ShardCount] s)\<lparr>dim := 0\<rparr>"

definition Dimension :: "'f Storage \<Rightarrow> int" where
  "Dimension s = dim s"

text \<open>The vectors held by the store, over all shards.\<close>

definition stored :: "'f Storage \<Rightarrow> 'f list set" where
  "stored s = {v. \<exists>i < ShardCount. \<exists>key. (shards s ! i) key = Some v}"

text \<open>
  The global-dimension invariant: once the dimension is non-zero, every stored vector has
  exactly that length.
\<close>

definition dim_invariant :: "'f Storage \<Rightarrow> bool" where
  "dim_invariant s \<longleftrightarrow> (dim s \<noteq> 0 \<longrightarrow> (\<forall>v \<in> stored s. int (length v) = dim s))"

text \<open>The dimension a call of \<^verbatim>\<open>Set\<close> leaves behind: the compare-and-swap fixes it
  when it was unset.\<close>

definition new_dim :: "'f Storage \<Rightarrow> 'f list \<Rightarrow> int" where
  "new_dim s values = (if dim s = 0 then int32 (int (length values)) else dim s)"

text \<open>
  The invariant that the operations keep step by step: every stored vector is non-empty
  and has the length the dimension says. It implies the invariant above.
\<close>

definition store_invariant :: "'f Storage \<Rightarrow> bool" where
  "store_invariant s \<longleftrightarrow> (\<forall>v \<in> stored s. v \<noteq> [] \<and> int (length v) = dim s)"

text \<open>
  The calls a client can make, and the store each leaves behind. \<^verbatim>\<open>Get\<close>,
  \<^verbatim>\<open>Count\<close> and \<^verbatim>\<open>Search\<close> write to no field of the store. A reachable store is
  what a sequence of calls makes of a new store.
\<close>

datatype 'f operation =
    OpSet string "'f list"
  | OpGet string
  | OpDelete string
  | OpCount
  | OpSearch "'f list" int
  | OpClear

fun apply_operation :: "'f float_ops \<Rightarrow> 'f Storage \<Rightarrow> 'f operation \<Rightarrow> 'f Storage" where
  "apply_operation ops s (OpSet key values) = snd (Set ops s key values)"
| "apply_operation ops s (OpGet key) = s"
| "apply_operation ops s (OpDelete key) = snd (Delete s key)"
| "apply_operation ops s OpCount = s"
| "apply_operation ops s (OpSearch query k) = s"
| "apply_operation ops s OpClear = Clear s"

definition run :: "'f float_ops \<Rightarrow> 'f operation list \<Rightarrow> 'f Storage" where
  "run ops calls = foldl (apply_operation ops) New calls"

subsection \<open>Calls that overlap\<close>

text \<open>
  The server runs every connection in a goroutine of its own, so calls on the store
  overlap. What the calls share is the field \<^verbatim>\<open>dim\<close>, read and written by atomic
  operations only, and the maps of the shards, read and written under the shard's lock
  only; everything else a call works on is local to it. A run of overlapping calls is
  therefore an interleaving of these accesses. A call in progress is the access it has
  reached, with the locals it still needs:

  \<^item> in \<^verbatim>\<open>Set\<close>: the first \<^verbatim>\<open>s.dim.Load()\<close>; the
    \<^verbatim>\<open>s.dim.CompareAndSwap(0, int32(len(values)))\<close>, reached when 0 was loaded; the
    second \<^verbatim>\<open>s.dim.Load()\<close>; the section under the shard's lock,
    \<^verbatim>\<open>shard.data[key] = normalized\<close>;
  \<^item> in \<^verbatim>\<open>Clear\<close>: the section under the lock of shard \<open>i\<close>,
    \<^verbatim>\<open>shard.data = make(map[string][]float32)\<close>, and the final
    \<^verbatim>\<open>s.dim.Store(0)\<close>;
  \<^item> a call that has returned, with its error.
\<close>

datatype 'f call =
    SetLoad string "'f list"
  | SetCompareAndSwap string "'f list"
  | SetReload string "'f list"
  | SetLock string "'f list"
  | ClearLock nat
  | ClearStore
  | Returned "error option"

text \<open>
  The local statements of \<^verbatim>\<open>Set\<close> between the load of the dimension and the lock:
  the comparison of the length with the dimension loaded, and \<^verbatim>\<open>Normalize\<close>.
\<close>

definition SetCheck :: "'f float_ops \<Rightarrow> string \<Rightarrow> 'f list \<Rightarrow> int \<Rightarrow> 'f call" where
  "SetCheck ops key values d =
     (if int (length values) \<noteq> d
      then Returned (Some (SetDimensionMismatch d (int (length values))))
      else case Normalize ops values of
             Inl err \<Rightarrow> Returned (Some (NormalizeVectorFailed err))
           | Inr normalized \<Rightarrow> SetLock key normalized)"

text \<open>One step of a call: the access it has reached, and the local statements after it.\<close>

fun step :: "'f float_ops \<Rightarrow> 'f call \<Rightarrow> 'f Storage \<Rightarrow> 'f call \<times> 'f Storage" where
  "step ops (SetLoad key values) s =
     (if dim s = 0 then (SetCompareAndSwap key values, s)
      else (SetCheck ops key values (dim s), s))"
| "step ops (SetCompareAndSwap key values) s =
     (SetReload key values, CompareAndSwap s 0 (int32 (int (length values))))"
| "step ops (SetReload key values) s = (SetCheck ops key values (dim s), s)"
| "step ops (SetLock key normalized) s =
     (Returned None,
      s\<lparr>shards := (shards s)[getShard key := (shards s ! getShard key)(key \<mapsto> normalized)]\<rparr>)"
| "step ops (ClearLock i) s =
     (if i + 1 < ShardCount then ClearLock (i + 1) else ClearStore,
      s\<lparr>shards := (shards s)[i := Map.empty]\<rparr>)"
| "step ops ClearStore s = (Returned None, s\<lparr>dim := 0\<rparr>)"
| "step ops (Returned err) s = (Returned err, s)"

text \<open>
  An interleaving: the calls in progress and the store; the schedule names, step by step,
  the call that takes the next step (a number that names no call is skipped).
\<close>

fun interleave :: "'f float_ops \<Rightarrow> nat list \<Rightarrow> 'f call list \<times> 'f Storage \<Rightarrow>
    'f call list \<times> 'f Storage" where
  "interleave ops [] cfg = cfg"
| "interleave ops (t # sched) (calls, s) =
     (if t < length calls
      then interleave ops sched
             (calls[t := fst (step ops (calls ! t) s)], snd (step ops (calls ! t) s))
      else interleave ops sched (calls, s))"

text \<open>
  The example of two overlapping calls on a new store, \<^verbatim>\<open>Set("k1", [1, 0, 0])\<close> and
  \<^verbatim>\<open>Clear()\<close>: \<^verbatim>\<open>Set\<close> takes its three steps on the dimension, then
  \<^verbatim>\<open>Clear\<close> runs from its first step to its last, then \<^verbatim>\<open>Set\<close> takes the
  lock and writes.
\<close>

definition race_calls :: "real call list" where
  "race_calls = [SetLoad ''k1'' [1, 0, 0], ClearLock 0]"

definition race_schedule :: "nat list" where
  "race_schedule = [0, 0, 0] @ replicate (ShardCount + 1) 1 @ [0]"

definition race_store :: "real Storage" where
  "race_store = snd (interleave exact_ops race_schedule (race_calls, New))"

section \<open>container/heap over a slice, and \<^verbatim>\<open>TopKHeap\<close>\<close>

text \<open>
  \<^verbatim>\<open>TopKHeap\<close> is a slice of results; \<^verbatim>\<open>Less(i, j)\<close> compares the similarities
  at two indices with \<^verbatim>\<open><\<close>. The functions of Go's \<^verbatim>\<open>container/heap\<close> are written
  over a list and the comparison of two elements, index by index as the library does.
\<close>

type_synonym 'f TopKHeap = "'f SearchResult list"

definition Less :: "'f float_ops \<Rightarrow> 'f SearchResult \<Rightarrow> 'f SearchResult \<Rightarrow> bool" where
  "Less ops a b = f_lt ops (Similarity a) (Similarity b)"

definition Swap :: "'a list \<Rightarrow> nat \<Rightarrow> nat \<Rightarrow> 'a list" where
  "Swap h i j = h[i := h ! j, j := h ! i]"

function up :: "('a \<Rightarrow> 'a \<Rightarrow> bool) \<Rightarrow> 'a list \<Rightarrow> nat \<Rightarrow> 'a list" where
  "up lt h j =
     (let i = (j - 1) div 2
      in if i = j \<or> \<not> lt (h ! j) (h ! i) then h else up lt (Swap h i j) i)"
  by pat_completeness auto
termination
  by (relation "measure (\<lambda>(lt, h, j). j)") auto

function down :: "('a \<Rightarrow> 'a \<Rightarrow> bool) \<Rightarrow> 'a list \<Rightarrow> nat \<Rightarrow> nat \<Rightarrow> 'a list" where
  "down lt h i n =
     (let j1 = 2 * i + 1
      in if j1 \<ge> n then h
         else let j = (if j1 + 1 < n \<and> lt (h ! (j1 + 1)) (h ! j1) then j1 + 1 else j1)
              in if \<not> lt (h ! j) (h ! i) then h else down lt (Swap h i j) j n)"
  by pat_completeness auto
termination
  by (relation "measure (\<lambda>(lt, h, i, n). n - i)") auto

text \<open>\<^verbatim>\<open>heap.Init\<close>: \<^verbatim>\<open>for i := n/2 - 1; i >= 0; i-- { down(h, i, n) }\<close>.\<close>

definition heap_Init :: "('a \<Rightarrow> 'a \<Rightarrow> bool) \<Rightarrow> 'a list \<Rightarrow> 'a list" where
  "heap_Init lt h = fold (\<lambda>i h'. down lt h' i (length h)) (rev [0..<length h div 2]) h"

text \<open>\<^verbatim>\<open>heap.Push\<close>: append, then \<^verbatim>\<open>up(h, h.Len()-1)\<close>.\<close>

definition heap_Push :: "('a \<Rightarrow> 'a \<Rightarrow> bool) \<Rightarrow> 'a list \<Rightarrow> 'a \<Rightarrow> 'a list" where
  "heap_Push lt h x = up lt (h @ [x]) (length (h @ [x]) - 1)"

text \<open>
  \<^verbatim>\<open>heap.Pop\<close>: \<^verbatim>\<open>n := h.Len() - 1; h.Swap(0, n); down(h, 0, n); return h.Pop()\<close>.
  On an empty heap \<^verbatim>\<open>Swap(0, -1)\<close> indexes out of range and panics.
\<close>

definition heap_Pop :: "('a \<Rightarrow> 'a \<Rightarrow> bool) \<Rightarrow> 'a list \<Rightarrow> error + ('a \<times> 'a list)" where
  "heap_Pop lt h =
     (if h = [] then Inl PanicIndexOutOfRange
      else let n = length h - 1;
               h' = down lt (Swap h 0 n) 0 n
           in Inr (h' ! (length h' - 1), take (length h' - 1) h'))"

section \<open>internal/storage/storage.go: Search\<close>

text \<open>
  A search starts one goroutine per shard. Each walks its map in the order Go's map
  iteration happens to give, and sends its results on a channel; the merge loop receives
  the shards in the order they finish. Both orders are outside the program's control, so
  they are an argument of the model: the schedule lists, in order of arrival, each shard's
  index with the order in which its keys were visited.
\<close>

type_synonym schedule = "(nat \<times> string list) list"

definition valid_schedule :: "'f Storage \<Rightarrow> schedule \<Rightarrow> bool" where
  "valid_schedule s sched \<longleftrightarrow>
     distinct (map fst sched) \<and> set (map fst sched) = {0..<ShardCount} \<and>
     (\<forall>(i, keys) \<in> set sched. distinct keys \<and> set keys = dom (shards s ! i))"

text \<open>
  One goroutine: \<^verbatim>\<open>for key, vec := range shard.data\<close>, sending the error of the first
  failing \<^verbatim>\<open>DotProduct\<close>, or else all results. The \<^verbatim>\<open>Distance\<close> field is never
  written and keeps its zero value.
\<close>

fun scanShard :: "'f float_ops \<Rightarrow> 'f list \<Rightarrow> (string \<rightharpoonup> 'f list) \<Rightarrow> string list \<Rightarrow>
    'f SearchResult list \<Rightarrow> error + 'f SearchResult list" where
  "scanShard ops normalizedQuery data [] results = Inr results"
| "scanShard ops normalizedQuery data (key # keys) results =
     (case data key of
        None \<Rightarrow> scanShard ops normalizedQuery data keys results
      | Some vec \<Rightarrow>
          (case DotProduct ops normalizedQuery vec of
             Inl err \<Rightarrow> Inl err
           | Inr similarity \<Rightarrow>
               scanShard ops normalizedQuery data keys
                 (results @ [\<lparr>Key = key, Similarity = similarity, Distance = f_zero ops\<rparr>])))"

text \<open>
  The inner merge loop, \<^verbatim>\<open>for _, res := range result.results\<close>. Reading \<^verbatim>\<open>(*h)[0]\<close>
  on an empty heap is an index out of range, a panic. Go's \<^verbatim>\<open>a > b\<close> on floats is
  \<^verbatim>\<open>b < a\<close>.
\<close>

fun mergeResults :: "'f float_ops \<Rightarrow> int \<Rightarrow> 'f SearchResult list \<Rightarrow> 'f TopKHeap \<Rightarrow>
    error + 'f TopKHeap" where
  "mergeResults ops k [] h = Inr h"
| "mergeResults ops k (res # rest) h =
     (if int (length h) < k then mergeResults ops k rest (heap_Push (Less ops) h res)
      else if h = [] then Inl PanicIndexOutOfRange
      else if f_lt ops (Similarity (h ! 0)) (Similarity res)
      then (case heap_Pop (Less ops) h of
              Inl err \<Rightarrow> Inl err
            | Inr (x, h') \<Rightarrow> mergeResults ops k rest (heap_Push (Less ops) h' res))
      else mergeResults ops k rest h)"

text \<open>The outer merge loop, \<^verbatim>\<open>for result := range resultChan\<close>.\<close>

fun mergeChannel :: "'f float_ops \<Rightarrow> int \<Rightarrow> (error + 'f SearchResult list) list \<Rightarrow>
    'f TopKHeap \<Rightarrow> error + 'f TopKHeap" where
  "mergeChannel ops k [] h = Inr h"
| "mergeChannel ops k (result # others) h =
     (case result of
        Inl err \<Rightarrow> Inl err
      | Inr results \<Rightarrow>
          (case mergeResults ops k results h of
             Inl err \<Rightarrow> Inl err
           | Inr h' \<Rightarrow> mergeChannel ops k others h'))"

text \<open>
  The extraction loop, \<^verbatim>\<open>for i := len(results) - 1; i >= 0; i-- { results[i] = heap.Pop(h) }\<close>;
  the first argument is \<^verbatim>\<open>i + 1\<close>.
\<close>

fun extractLoop :: "('a \<Rightarrow> 'a \<Rightarrow> bool) \<Rightarrow> nat \<Rightarrow> 'a list \<Rightarrow> 'a list \<Rightarrow> error + 'a list" where
  "extractLoop lt 0 h results = Inr results"
| "extractLoop lt (Suc i) h results =
     (case heap_Pop lt h of
        Inl err \<Rightarrow> Inl err
      | Inr (x, h') \<Rightarrow> extractLoop lt i h' (results[i := x]))"

definition Search :: "'f float_ops \<Rightarrow> 'f Storage \<Rightarrow> 'f list \<Rightarrow> int \<Rightarrow> schedule \<Rightarrow>
    error + 'f SearchResult list" where
  "Search ops s query k sched =
     (case Normalize ops query of
        Inl err \<Rightarrow> Inl (NormalizeQueryFailed err)
      | Inr normalizedQuery \<Rightarrow>
          (let resultChan = map (\<lambda>(shardIdx, keys).
                 scanShard ops normalizedQuery (shards s ! shardIdx) keys []) sched;
               h = heap_Init (Less ops) []
           in case mergeChannel ops k resultChan h of
                Inl err \<Rightarrow> Inl err
              | Inr h' \<Rightarrow>
                  extractLoop (Less ops) (length h') h'
                    (replicate (length h')
                       \<lparr>Key = [], Similarity = f_zero ops, Distance = f_zero ops\<rparr>)))"

section \<open>Notions for the proofs about the heap and the search\<close>

text \<open>
  The heap order of \<^verbatim>\<open>container/heap\<close>: no element is less than its parent, the
  parent of index \<open>c\<close> being \<open>(c - 1) div 2\<close>; and the same for the first \<open>n\<close>
  elements only.
\<close>

definition heap_ok :: "('a \<Rightarrow> 'a \<Rightarrow> bool) \<Rightarrow> 'a list \<Rightarrow> bool" where
  "heap_ok lt h \<longleftrightarrow> (\<forall>c < length h. 0 < c \<longrightarrow> \<not> lt (h ! c) (h ! ((c - 1) div 2)))"

definition heap_prefix_ok :: "('a \<Rightarrow> 'a \<Rightarrow> bool) \<Rightarrow> 'a list \<Rightarrow> nat \<Rightarrow> bool" where
  "heap_prefix_ok lt h n \<longleftrightarrow> (\<forall>c < n. 0 < c \<longrightarrow> \<not> lt (h ! c) (h ! ((c - 1) div 2)))"

text \<open>
  What the heap needs of the comparison: on the set of values it meets, \<open>lt\<close> is
  asymmetric and negatively transitive, a strict weak order. Go's \<^verbatim>\<open><\<close> on floats is
  one on every set of numbers without a NaN.
\<close>

definition strict_weak_order_on :: "'a set \<Rightarrow> ('a \<Rightarrow> 'a \<Rightarrow> bool) \<Rightarrow> bool" where
  "strict_weak_order_on A lt \<longleftrightarrow>
     (\<forall>x \<in> A. \<forall>y \<in> A. lt x y \<longrightarrow> \<not> lt y x) \<and>
     (\<forall>x \<in> A. \<forall>y \<in> A. \<forall>z \<in> A. lt x z \<longrightarrow> lt x y \<or> lt y z)"

text \<open>
  The loop invariants of \<^verbatim>\<open>up\<close> and \<^verbatim>\<open>down\<close>: the heap order holds on every
  edge but the one under repair, and the elements around the gap are ordered across it.
\<close>

definition up_inv :: "('a \<Rightarrow> 'a \<Rightarrow> bool) \<Rightarrow> 'a list \<Rightarrow> nat \<Rightarrow> bool" where
  "up_inv lt h j \<longleftrightarrow>
     (\<forall>c < length h. 0 < c \<longrightarrow> c \<noteq> j \<longrightarrow> \<not> lt (h ! c) (h ! ((c - 1) div 2))) \<and>
     (\<forall>c < length h. 0 < c \<longrightarrow> (c - 1) div 2 = j \<longrightarrow> 0 < j \<longrightarrow>
        \<not> lt (h ! c) (h ! ((j - 1) div 2)))"

definition down_inv :: "('a \<Rightarrow> 'a \<Rightarrow> bool) \<Rightarrow> 'a list \<Rightarrow> nat \<Rightarrow> nat \<Rightarrow> bool" where
  "down_inv lt h i n \<longleftrightarrow>
     (\<forall>c < n. 0 < c \<longrightarrow> (c - 1) div 2 \<noteq> i \<longrightarrow> \<not> lt (h ! c) (h ! ((c - 1) div 2))) \<and>
     (\<forall>c < n. 0 < c \<longrightarrow> (c - 1) div 2 = i \<longrightarrow> 0 < i \<longrightarrow>
        \<not> lt (h ! c) (h ! ((i - 1) div 2)))"

text \<open>The child that \<^verbatim>\<open>down\<close> compares with the parent: the right one when it
  exists and is less than the left one.\<close>

definition min_child :: "('a \<Rightarrow> 'a \<Rightarrow> bool) \<Rightarrow> 'a list \<Rightarrow> nat \<Rightarrow> nat \<Rightarrow> nat" where
  "min_child lt h i n =
     (if 2 * i + 2 < n \<and> lt (h ! (2 * i + 2)) (h ! (2 * i + 1)) then 2 * i + 2 else 2 * i + 1)"

text \<open>
  What the goroutines send: one result per scheduled shard. The candidates are all the
  results sent, the similarities the dot products of the query with the stored vectors.
\<close>

definition channel :: "'f float_ops \<Rightarrow> 'f Storage \<Rightarrow> 'f list \<Rightarrow> schedule \<Rightarrow> (error + 'f SearchResult list) list" where
  "channel ops s nq sched = map (\<lambda>(shardIdx, keys). scanShard ops nq (shards s ! shardIdx) keys []) sched"

definition candidates :: "(error + 'a list) list \<Rightarrow> 'a list" where
  "candidates chan = concat (map (\<lambda>r. case r of Inl e \<Rightarrow> [] | Inr rs \<Rightarrow> rs) chan)"

definition scanned :: "'f float_ops \<Rightarrow> 'f list \<Rightarrow> (string \<rightharpoonup> 'f list) \<Rightarrow> string \<Rightarrow> 'f SearchResult" where
  "scanned ops q m key =
     \<lparr>Key = key,
      Similarity = (case DotProduct ops q (the (m key)) of Inl e \<Rightarrow> f_zero ops | Inr x \<Rightarrow> x),
      Distance = f_zero ops\<rparr>"

definition similarities :: "'f float_ops \<Rightarrow> 'f Storage \<Rightarrow> 'f list \<Rightarrow> 'f set" where
  "similarities ops s q = {x. \<exists>v \<in> stored s. DotProduct ops q v = Inr x}"

text \<open>
  Two stores for the concrete examples: one holding the same vector under the keys
  \<^verbatim>\<open>a\<close> and \<^verbatim>\<open>b\<close>, one holding two orthogonal vectors; and a schedule for them, in
  which the shards arrive in the order of their indices (\<^verbatim>\<open>b\<close> hashes to shard 5,
  \<^verbatim>\<open>a\<close> to shard 12).
\<close>

definition tie_store :: "real Storage" where
  "tie_store = snd (Set exact_ops (snd (Set exact_ops New ''a'' [1, 0])) ''b'' [1, 0])"

definition pair_store :: "real Storage" where
  "pair_store = snd (Set exact_ops (snd (Set exact_ops New ''a'' [1, 0])) ''b'' [0, 1])"

definition tie_schedule :: schedule where
  "tie_schedule =
     [(0, []), (1, []), (2, []), (3, []), (4, []), (5, [''b'']), (6, []), (7, []), (8, []), (9, []), (10, []), (11, []), (12, [''a'']), (13, []), (14, []), (15, []), (16, []), (17, []), (18, []), (19, []), (20, []), (21, []), (22, []), (23, []), (24, []), (25, []), (26, []), (27, []), (28, []), (29, []), (30, []), (31, [])]"

text \<open>
  An arithmetic with an unordered value, for one more example: the reals and a NaN
  (\<open>None\<close>), which every operation passes on and every comparison answers with false,
  as IEEE 754 has it. Infinities are not represented; the example divides by no zero. The
  store holds one vector with a NaN component, which \<^verbatim>\<open>Set\<close> accepts, since NaN does
  not compare equal to zero.
\<close>

definition nan_ops :: "real option float_ops" where
  "nan_ops =
     \<lparr>f_zero = Some 0,
      f_add = (\<lambda>x y. case (x, y) of (Some a, Some b) \<Rightarrow> Some (a + b) | _ \<Rightarrow> None),
      f_mul = (\<lambda>x y. case (x, y) of (Some a, Some b) \<Rightarrow> Some (a * b) | _ \<Rightarrow> None),
      f_div = (\<lambda>x y. case (x, y) of
                 (Some a, Some b) \<Rightarrow> if b = 0 then None else Some (a / b) | _ \<Rightarrow> None),
      f_sqrt = (\<lambda>x. case x of Some a \<Rightarrow> if a < 0 then None else Some (sqrt a) | None \<Rightarrow> None),
      f_eq = (\<lambda>x y. case (x, y) of (Some a, Some b) \<Rightarrow> a = b | _ \<Rightarrow> False),
      f_lt = (\<lambda>x y. case (x, y) of (Some a, Some b) \<Rightarrow> a < b | _ \<Rightarrow> False)\<rparr>"

definition nan_store :: "real option Storage" where
  "nan_store =
     run nan_ops [OpSet ''k1'' [Some 0, Some 1], OpSet ''b'' [None, Some 1],
                  OpSet ''k2'' [Some 1, Some 0], OpSet ''a'' [Some (- 1), Some 0]]"

definition nan_schedule :: schedule where
  "nan_schedule =
     [(0, []), (1, [''k1'']), (2, []), (3, []), (4, []), (5, [''b'']), (6, []), (7, []), (8, [''k2'']), (9, []), (10, []), (11, []), (12, [''a'']), (13, []), (14, []), (15, []), (16, []), (17, []), (18, []), (19, []), (20, []), (21, []), (22, []), (23, []), (24, []), (25, []), (26, []), (27, []), (28, []), (29, []), (30, []), (31, [])]"

section \<open>internal/protocol/resp.go: the reader\<close>

text \<open>
  The reader's input is the list of bytes still to be read; the end of the list is the
  end of the stream. A read function returns an error, or its value with the bytes left.
  The constructors of the errors follow the places that make them: \<^verbatim>\<open>io.EOF\<close> and
  \<^verbatim>\<open>io.ErrUnexpectedEOF\<close>, the messages wrapping \<^verbatim>\<open>ErrInvalidProtocol\<close> (type byte,
  line, bulk terminator) and \<^verbatim>\<open>ErrInvalidLength\<close> (array, bulk), the text of an error
  frame (\<^verbatim>\<open>errors.New(line)\<close>), and the panic of \<^verbatim>\<open>make\<close> on a negative length.
\<close>

datatype read_error =
    EOF
  | ErrUnexpectedEOF
  | UnexpectedTypeByte char
  | LineNotTerminated
  | MissingCRLFAfterBulk
  | InvalidArrayLength string
  | InvalidBulkLength string
  | NegativeBulkLength int
  | ErrorFrame string
  | PanicMakeslice

abbreviation CR :: char where
  "CR \<equiv> CHR 0x0D"

abbreviation LF :: char where
  "LF \<equiv> CHR 0x0A"

text \<open>
  \<^verbatim>\<open>strconv.Atoi\<close> on a 64-bit platform: an optional sign, then one or more decimal
  digits, and a value that fits \<^verbatim>\<open>int\<close>; anything else is an error.
\<close>

definition isDigit :: "char \<Rightarrow> bool" where
  "isDigit c \<longleftrightarrow> (48::nat) \<le> of_char c \<and> of_char c \<le> (57::nat)"

fun parseDigits :: "nat \<Rightarrow> string \<Rightarrow> nat option" where
  "parseDigits n [] = Some n"
| "parseDigits n (ch # s) =
     (if isDigit ch then parseDigits (n * 10 + (of_char ch - 48)) s else None)"

definition Atoi :: "string \<Rightarrow> int option" where
  "Atoi s =
     (case s of
        [] \<Rightarrow> None
      | s0 # rest \<Rightarrow>
          (let digits = (if s0 = CHR ''-'' \<or> s0 = CHR ''+'' then rest else s)
           in if digits = [] then None
              else (case parseDigits 0 digits of
                      None \<Rightarrow> None
                    | Some n \<Rightarrow>
                        (let v = (if s0 = CHR ''-'' then - int n else int n)
                         in if - (2 ^ 63) \<le> v \<and> v < 2 ^ 63 then Some v else None))))"

text \<open>\<^verbatim>\<open>strconv.Itoa\<close>: the decimal digits, most significant first, after a minus sign
  for a negative number.\<close>

fun formatDigits :: "nat \<Rightarrow> string" where
  "formatDigits n =
     (if n < 10 then [char_of (48 + n)]
      else formatDigits (n div 10) @ [char_of (48 + n mod 10)])"

definition Itoa :: "int \<Rightarrow> string" where
  "Itoa i = (if i < 0 then CHR ''-'' # formatDigits (nat (- i)) else formatDigits (nat i))"

text \<open>
  \<^verbatim>\<open>bufio.Reader.ReadString('\n')\<close>: the bytes up to and including the first line feed;
  without one, all the bytes and \<^verbatim>\<open>io.EOF\<close>.
\<close>

definition ReadString :: "string \<Rightarrow> read_error + (string \<times> string)" where
  "ReadString inp =
     (case dropWhile (\<lambda>c. c \<noteq> LF) inp of
        [] \<Rightarrow> Inl EOF
      | _ # rest \<Rightarrow> Inr (takeWhile (\<lambda>c. c \<noteq> LF) inp @ [LF], rest))"

definition readLine :: "string \<Rightarrow> read_error + (string \<times> string)" where
  "readLine inp =
     (case ReadString inp of
        Inl err \<Rightarrow> Inl err
      | Inr (line, rest) \<Rightarrow>
          if length line < 2 then Inl LineNotTerminated
          else if line ! (length line - 2) \<noteq> CR then Inl LineNotTerminated
          else Inr (take (length line - 2) line, rest))"

text \<open>
  \<^verbatim>\<open>readBulkString\<close>. \<^verbatim>\<open>io.ReadFull\<close> gives \<^verbatim>\<open>io.EOF\<close> when no byte is left and
  \<^verbatim>\<open>io.ErrUnexpectedEOF\<close> when too few are. \<^verbatim>\<open>length + 2\<close> wraps to a negative
  number from \<^verbatim>\<open>2^63 - 2\<close> on, and \<^verbatim>\<open>make\<close> panics. (Memory is
  not modelled: a buffer of any smaller length is taken to be allocated.)
\<close>

definition readBulkString :: "string \<Rightarrow> read_error + (string \<times> string)" where
  "readBulkString inp =
     (case readLine inp of
        Inl err \<Rightarrow> Inl err
      | Inr (line, rest) \<Rightarrow>
          (case Atoi line of
             None \<Rightarrow> Inl (InvalidBulkLength line)
           | Some len \<Rightarrow>
               if len = - 1 then Inr ([], rest)
               else if len < 0 then Inl (NegativeBulkLength len)
               else if len + 2 \<ge> 2 ^ 63 then Inl PanicMakeslice
               else if rest = [] then Inl EOF
               else if length rest < nat len + 2 then Inl ErrUnexpectedEOF
               else (let buf = take (nat len + 2) rest
                     in if buf ! nat len \<noteq> CR \<or> buf ! (nat len + 1) \<noteq> LF
                        then Inl MissingCRLFAfterBulk
                        else Inr (take (nat len) buf, drop (nat len + 2) rest))))"

definition readValue :: "string \<Rightarrow> read_error + (string \<times> string)" where
  "readValue inp =
     (case inp of
        [] \<Rightarrow> Inl EOF
      | typ # rest \<Rightarrow>
          if typ = CHR ''$'' then readBulkString rest
          else if typ = CHR ''+'' then readLine rest
          else if typ = CHR ''-'' then
            (case readLine rest of
               Inl err \<Rightarrow> Inl err
             | Inr (line, _) \<Rightarrow> Inl (ErrorFrame line))
          else if typ = CHR '':'' then readLine rest
          else Inl (UnexpectedTypeByte typ))"

text \<open>The loop of \<^verbatim>\<open>readArray\<close>: \<^verbatim>\<open>for i := 0; i < count; i++ { ... result[i] = val }\<close>.\<close>

function readArrayLoop :: "nat \<Rightarrow> nat \<Rightarrow> string \<Rightarrow> string list \<Rightarrow>
    read_error + (string list \<times> string)" where
  "readArrayLoop i count inp result =
     (if i < count
      then (case readValue inp of
              Inl err \<Rightarrow> Inl err
            | Inr (val, rest) \<Rightarrow> readArrayLoop (i + 1) count rest (result[i := val]))
      else Inr (result, inp))"
  by pat_completeness auto
termination
  by (relation "measure (\<lambda>(i, count, inp, result). count - i)") auto

definition readArray :: "string \<Rightarrow> read_error + (string list \<times> string)" where
  "readArray inp =
     (case readLine inp of
        Inl err \<Rightarrow> Inl err
      | Inr (line, rest) \<Rightarrow>
          (case Atoi line of
             None \<Rightarrow> Inl (InvalidArrayLength line)
           | Some count \<Rightarrow>
               if count < 0 then Inl (InvalidArrayLength line)
               else readArrayLoop 0 (nat count) rest (replicate (nat count) [])))"

text \<open>
  \<^verbatim>\<open>ReadCommand\<close>. After \<^verbatim>\<open>UnreadByte\<close> the type byte is read again by
  \<^verbatim>\<open>readValue\<close>, which therefore starts from the whole input.
\<close>

definition ReadCommand :: "string \<Rightarrow> read_error + (string list \<times> string)" where
  "ReadCommand inp =
     (case inp of
        [] \<Rightarrow> Inl EOF
      | typ # rest \<Rightarrow>
          if typ = CHR ''*'' then readArray rest
          else if typ = CHR ''+'' \<or> typ = CHR ''-'' \<or> typ = CHR '':'' \<or> typ = CHR ''$'' then
            (case readValue inp of
               Inl err \<Rightarrow> Inl err
             | Inr (val, rest') \<Rightarrow> Inr ([val], rest'))
          else Inl (UnexpectedTypeByte typ))"

section \<open>internal/protocol/resp.go: the writer\<close>

text \<open>
  The writer appends to its buffer; the first argument is the buffer so far and the
  result the buffer after the call. Writing to the buffer does not fail.
\<close>

definition WriteSimpleString :: "string \<Rightarrow> string \<Rightarrow> string" where
  "WriteSimpleString w s = w @ ''+'' @ s @ [CR, LF]"

definition WriteError :: "string \<Rightarrow> string \<Rightarrow> string" where
  "WriteError w msg = w @ ''-ERR '' @ msg @ [CR, LF]"

definition WriteBulkString :: "string \<Rightarrow> string \<Rightarrow> string" where
  "WriteBulkString w s = w @ ''$'' @ Itoa (int (length s)) @ [CR, LF] @ s @ [CR, LF]"

definition WriteArray :: "string \<Rightarrow> string list \<Rightarrow> string" where
  "WriteArray w elements =
     foldl WriteBulkString (w @ ''*'' @ Itoa (int (length elements)) @ [CR, LF]) elements"

definition WriteInteger :: "string \<Rightarrow> int \<Rightarrow> string" where
  "WriteInteger w n = w @ '':'' @ Itoa n @ [CR, LF]"

section \<open>internal/protocol/resp.go: FastVectorParser\<close>

text \<open>
  \<^verbatim>\<open>strings.TrimSpace\<close> removes the leading and the trailing white space, as Unicode
  defines it (\<^verbatim>\<open>unicode.IsSpace\<close>). A Go string is a list of bytes, so the white-space
  characters are given by their UTF-8 encodings: tab, line feed, vertical tab, form feed,
  carriage return, space, U+0085, U+00A0, U+1680, U+2000 to U+200A, U+2028, U+2029,
  U+202F, U+205F and U+3000.
\<close>

definition whiteSpace :: "string list" where
  "whiteSpace =
     [[CHR 0x09], [CHR 0x0A], [CHR 0x0B], [CHR 0x0C], [CHR 0x0D], [CHR 0x20],
      [CHR 0xC2, CHR 0x85], [CHR 0xC2, CHR 0xA0],
      [CHR 0xE1, CHR 0x9A, CHR 0x80],
      [CHR 0xE2, CHR 0x80, CHR 0x80], [CHR 0xE2, CHR 0x80, CHR 0x81],
      [CHR 0xE2, CHR 0x80, CHR 0x82], [CHR 0xE2, CHR 0x80, CHR 0x83],
      [CHR 0xE2, CHR 0x80, CHR 0x84], [CHR 0xE2, CHR 0x80, CHR 0x85],
      [CHR 0xE2, CHR 0x80, CHR 0x86], [CHR 0xE2, CHR 0x80, CHR 0x87],
      [CHR 0xE2, CHR 0x80, CHR 0x88], [CHR 0xE2, CHR 0x80, CHR 0x89],
      [CHR 0xE2, CHR 0x80, CHR 0x8A],
      [CHR 0xE2, CHR 0x80, CHR 0xA8], [CHR 0xE2, CHR 0x80, CHR 0xA9],
      [CHR 0xE2, CHR 0x80, CHR 0xAF],
      [CHR 0xE2, CHR 0x81, CHR 0x9F],
      [CHR 0xE3, CHR 0x80, CHR 0x80]]"

text \<open>The white-space character a string starts with, and the one it ends with.\<close>

definition leadingSpace :: "string \<Rightarrow> string option" where
  "leadingSpace s = find (\<lambda>e. take (length e) s = e) whiteSpace"

definition trailingSpace :: "string \<Rightarrow> string option" where
  "trailingSpace s = find (\<lambda>e. drop (length s - length e) s = e) whiteSpace"

function TrimLeft :: "string \<Rightarrow> string" where
  "TrimLeft s =
     (case leadingSpace s of
        None \<Rightarrow> s
      | Some e \<Rightarrow> if s = [] \<or> e = [] then s else TrimLeft (drop (length e) s))"
  by pat_completeness auto
termination
  by (relation "measure length") auto

function TrimRight :: "string \<Rightarrow> string" where
  "TrimRight s =
     (case trailingSpace s of
        None \<Rightarrow> s
      | Some e \<Rightarrow> if s = [] \<or> e = [] then s else TrimRight (take (length s - length e) s))"
  by pat_completeness auto
termination
  by (relation "measure length") auto

definition TrimSpace :: "string \<Rightarrow> string" where
  "TrimSpace s = TrimRight (TrimLeft s)"

text \<open>\<^verbatim>\<open>strings.Split(s, sep)\<close> for a separator of one byte; the empty string gives one
  empty piece.\<close>

fun Split :: "string \<Rightarrow> char \<Rightarrow> string list" where
  "Split [] sep = [[]]"
| "Split (c # s) sep =
     (if c = sep then [] # Split s sep
      else (case Split s sep of
              [] \<Rightarrow> [[c]]
            | part # parts \<Rightarrow> (c # part) # parts))"

datatype parse_error =
    NotEnclosedInBrackets
  | InvalidVectorElement string

text \<open>
  The loop over the parts. \<^verbatim>\<open>strconv.ParseFloat(part, 32)\<close> followed by the
  conversion to \<^verbatim>\<open>float32\<close> is the parameter \<open>parseFloat\<close>, \<open>None\<close> when it
  returns an error.
\<close>

fun parseParts :: "(string \<Rightarrow> 'f option) \<Rightarrow> string list \<Rightarrow> 'f list \<Rightarrow> parse_error + 'f list" where
  "parseParts parseFloat [] result = Inr result"
| "parseParts parseFloat (part # parts) result =
     (let part' = TrimSpace part
      in if part' = [] then parseParts parseFloat parts result
         else (case parseFloat part' of
                 None \<Rightarrow> Inl (InvalidVectorElement part')
               | Some val \<Rightarrow> parseParts parseFloat parts (result @ [val])))"

definition FastVectorParser :: "(string \<Rightarrow> 'f option) \<Rightarrow> string \<Rightarrow> parse_error + 'f list" where
  "FastVectorParser parseFloat s =
     (let s1 = TrimSpace s
      in if length s1 < 2 then Inl NotEnclosedInBrackets
         else if s1 ! 0 \<noteq> CHR ''['' then Inl NotEnclosedInBrackets
         else if s1 ! (length s1 - 1) \<noteq> CHR '']'' then Inl NotEnclosedInBrackets
         else (let s2 = take (length s1 - 1 - 1) (drop 1 s1);
                   s3 = TrimSpace s2
               in if s3 = [] then Inr []
                  else parseParts parseFloat (Split s3 CHR '','') []))"

text \<open>
  The parser as the specification words it: trim the input; fail unless it starts with an
  opening and ends with a closing bracket; split what is between the brackets on commas and
  trim each piece; skip the empty pieces; fail at the first remaining piece that is not a
  number, naming it; otherwise give the numbers in order.
\<close>

fun spec_elements :: "(string \<Rightarrow> 'f option) \<Rightarrow> string list \<Rightarrow> parse_error + 'f list" where
  "spec_elements parseFloat [] = Inr []"
| "spec_elements parseFloat (piece # pieces) =
     (case parseFloat piece of
        None \<Rightarrow> Inl (InvalidVectorElement piece)
      | Some val \<Rightarrow>
          (case spec_elements parseFloat pieces of
             Inl err \<Rightarrow> Inl err
           | Inr vals \<Rightarrow> Inr (val # vals)))"

definition spec_FastVectorParser :: "(string \<Rightarrow> 'f option) \<Rightarrow> string \<Rightarrow> parse_error + 'f list" where
  "spec_FastVectorParser parseFloat s =
     (let t = TrimSpace s
      in if \<not> (t \<noteq> [] \<and> hd t = CHR ''['' \<and> last t = CHR '']'')
         then Inl NotEnclosedInBrackets
         else spec_elements parseFloat
                (filter (\<lambda>piece. piece \<noteq> [])
                   (map TrimSpace (Split (butlast (tl t)) CHR '',''))))"

section \<open>Notions for the proofs about the parser\<close>

text \<open>
  The shape of the white-space encodings: the first byte of each is no UTF-8 continuation
  byte and fixes the length, the other bytes are continuation bytes. A run of white space
  is a concatenation of encodings.
\<close>

definition cont :: "char \<Rightarrow> bool" where
  "cont c \<longleftrightarrow> (128::nat) \<le> of_char c \<and> of_char c < (192::nat)"

definition width :: "char \<Rightarrow> nat" where
  "width c = (if of_char c < (128::nat) then 1 else if of_char c < (224::nat) then 2 else 3)"

definition is_spaces :: "string \<Rightarrow> bool" where
  "is_spaces w \<longleftrightarrow> (\<exists>es. set es \<subseteq> set whiteSpace \<and> w = concat es)"

text \<open>
  For the concrete examples, the parameter \<open>parseFloat\<close> at the tokens they use; the
  reals 1/10 and 2/10 stand for the floats nearest to 0.1 and 0.2.
\<close>

definition example_parseFloat :: "string \<Rightarrow> real option" where
  "example_parseFloat token =
     (if token = ''0.1'' then Some (1 / 10) else if token = ''0.2'' then Some (2 / 10) else None)"

section \<open>Properties of the store\<close>

lemma getShard_less: "getShard key < ShardCount"
  by (simp add: getShard_def ShardCount_def unat_mod_distrib)

lemma nth_update_cases:
  "(xs[i := x]) ! j = (if i = j \<and> i < length xs then x else xs ! j)"
  by (cases "i < length xs") (auto simp: nth_list_update list_update_beyond)

lemma stored_New: "stored (New :: 'f Storage) = {}"
  by (auto simp: stored_def New_def ShardCount_def)

lemma stored_update_subset:
  "stored (s\<lparr>shards := (shards s)[i := (shards s ! i)(key \<mapsto> v)]\<rparr>) \<subseteq> insert v (stored s)"
  by (auto simp: stored_def nth_update_cases split: if_splits)

lemma stored_delete_subset:
  "stored (s\<lparr>shards := (shards s)[i := (shards s ! i)(key := None)]\<rparr>) \<subseteq> stored s"
  by (auto simp: stored_def nth_update_cases split: if_splits)

lemma stored_dim_update [simp]: "stored (s\<lparr>dim := d\<rparr>) = stored s"
  by (simp add: stored_def)

lemma Normalize_length: "Normalize ops v = Inr n \<Longrightarrow> length n = length v"
  by (auto simp: Normalize_def Let_def split: if_splits)

lemma Normalize_Nil:
  "f_eq ops (f_sqrt ops (f_zero ops)) (f_zero ops) \<Longrightarrow> Normalize ops [] = Inl ErrZeroVector"
  by (simp add: Normalize_def Magnitude_def)

lemma Clear_shards_aux:
  "n \<le> length (shards s) \<Longrightarrow>
   fold (\<lambda>i s'. s'\<lparr>shards := (shards s')[i := Map.empty]\<rparr>) [0..<n] s =
   s\<lparr>shards := replicate n Map.empty @ drop n (shards s)\<rparr>"
proof (induction n)
  case 0
  then show ?case by simp
next
  case (Suc n)
  then have "n < length (shards s)" by simp
  then have "(replicate n Map.empty @ drop n (shards s))[n := Map.empty] =
          replicate (Suc n) Map.empty @ drop (Suc n) (shards s)"
    by (simp add: list_update_append upd_conv_take_nth_drop drop_Suc
      replicate_append_same del: replicate_Suc) (simp add: drop_Suc[symmetric] drop_tl)
  with Suc show ?case by simp
qed

lemma Clear_eq:
  "length (shards s) = ShardCount \<Longrightarrow> Clear s = s\<lparr>shards := replicate ShardCount Map.empty, dim := 0\<rparr>"
  by (simp add: Clear_def Clear_shards_aux)

lemma dim_Clear [simp]: "dim (Clear s) = 0"
  by (simp add: Clear_def)

lemma Set_unfold:
  "Set ops s key values =
     (if int (length values) \<noteq> new_dim s values
      then (Some (SetDimensionMismatch (new_dim s values) (int (length values))), s\<lparr>dim := new_dim s values\<rparr>)
      else case Normalize ops values of
             Inl err \<Rightarrow> (Some (NormalizeVectorFailed err), s\<lparr>dim := new_dim s values\<rparr>)
           | Inr n \<Rightarrow> (None, s\<lparr>dim := new_dim s values,
                 shards := (shards s)[getShard key := (shards s ! getShard key)(key \<mapsto> n)]\<rparr>))"
  by (simp add: Set_def Let_def CompareAndSwap_def new_dim_def split: sum.splits)

lemma stored_Set_subset:
  "stored (snd (Set ops s key values)) \<subseteq> stored s \<union> {n. Normalize ops values = Inr n \<and> int (length values) = new_dim s values}"
  using stored_update_subset[of "s\<lparr>dim := new_dim s values\<rparr>" "getShard key" key]
  by (auto simp: Set_unfold split: sum.splits)

lemma dim_Set: "dim (snd (Set ops s key values)) = new_dim s values"
  by (simp add: Set_unfold split: sum.splits)

lemma Set_store_invariant:
  assumes z: "Normalize ops [] = Inl ErrZeroVector" and inv: "store_invariant s"
  shows "store_invariant (snd (Set ops s key values))"
  unfolding store_invariant_def dim_Set
proof
  fix v assume "v \<in> stored (snd (Set ops s key values))"
  with stored_Set_subset[of ops s key "values"]
  consider "v \<in> stored s" | "Normalize ops values = Inr v" "int (length values) = new_dim s values"
    by auto
  then show "v \<noteq> [] \<and> int (length v) = new_dim s values"
  proof cases
    case 1
    with inv have "v \<noteq> []" "int (length v) = dim s" by (auto simp: store_invariant_def)
    then show ?thesis by (auto simp: new_dim_def)
  next
    case 2
    from 2(1) have "length v = length values" by (rule Normalize_length)
    moreover from 2(1) z have "values \<noteq> []" by auto
    ultimately show ?thesis using 2(2) by auto
  qed
qed

lemma Delete_store_invariant:
  "store_invariant s \<Longrightarrow> store_invariant (snd (Delete s key))"
  using stored_delete_subset[of s "getShard key" key]
  by (auto simp: Delete_def Let_def store_invariant_def)


lemma length_shards_Set [simp]: "length (shards (snd (Set ops s key vs))) = length (shards s)"
  by (simp add: Set_unfold split: sum.splits)

lemma length_shards_Delete [simp]: "length (shards (snd (Delete s key))) = length (shards s)"
  by (simp add: Delete_def Let_def)

lemma stored_Clear: "length (shards s) = ShardCount \<Longrightarrow> stored (Clear s) = {}"
  by (auto simp: Clear_eq stored_def)

lemma length_shards_Clear [simp]:
  "length (shards s) = ShardCount \<Longrightarrow> length (shards (Clear s)) = ShardCount"
  by (simp add: Clear_eq)

lemma apply_operation_invariant:
  assumes "Normalize ops [] = Inl ErrZeroVector"
    and "length (shards s) = ShardCount \<and> store_invariant s"
  shows "length (shards (apply_operation ops s call)) = ShardCount \<and>
         store_invariant (apply_operation ops s call)"
proof (cases call)
  case (OpSet key vs)
  with assms show ?thesis by (simp add: Set_store_invariant)
next
  case (OpDelete key)
  with assms show ?thesis by (simp add: Delete_store_invariant)
next
  case OpClear
  with assms show ?thesis by (simp add: store_invariant_def stored_Clear)
qed (use assms in simp_all)

lemma run_invariant:
  assumes "Normalize ops [] = Inl ErrZeroVector"
  shows "length (shards (run ops calls)) = ShardCount \<and> store_invariant (run ops calls)"
proof (induction calls rule: rev_induct)
  case Nil
  show ?case by (simp add: run_def store_invariant_def stored_New) (simp add: New_def)
next
  case (snoc call calls)
  from apply_operation_invariant[OF assms snoc] show ?case by (simp add: run_def)
qed

lemma store_invariant_dim_invariant: "store_invariant s \<Longrightarrow> dim_invariant s"
  by (simp add: store_invariant_def dim_invariant_def)

lemma exact_sqrt_zero: "f_eq exact_ops (f_sqrt exact_ops (f_zero exact_ops)) (f_zero exact_ops)"
  by (simp add: exact_ops_def)

lemma getShard_a: "getShard ''a'' = 12"
  by (simp add: getShard_def fnv32a_def)
lemma getShard_b: "getShard ''b'' = 5"
  by (simp add: getShard_def fnv32a_def)
lemma Normalize_10: "Normalize exact_ops [1, 0] = Inr [1, 0]"
  by (simp add: Normalize_def Magnitude_def exact_ops_def)

lemma Normalize_000: "Normalize exact_ops [0, 0, 0] = Inl ErrZeroVector"
  by (simp add: Normalize_def Magnitude_def exact_ops_def)

lemma Count_empty:
  assumes "\<forall>i < ShardCount. shards s ! i = Map.empty"
  shows "Count s = 0"
proof -
  have "foldl (\<lambda>count i. count + int (card (dom (shards s ! i)))) c xs = c"
    if "\<forall>i \<in> set xs. i < ShardCount" for xs c
    using that assms by (induction xs arbitrary: c) auto
  then show ?thesis by (simp add: Count_def)
qed


lemma getShard_k1: "getShard ''k1'' = 1"
  by (simp add: getShard_def fnv32a_def)

lemma getShard_k2: "getShard ''k2'' = 8"
  by (simp add: getShard_def fnv32a_def)

lemma Normalize_100: "Normalize exact_ops [1, 0, 0] = Inr [1, 0, 0]"
  by (simp add: Normalize_def Magnitude_def exact_ops_def)

lemma length_shards_New: "length (shards (New :: 'f Storage)) = ShardCount"
  by (simp add: New_def)

lemma Set_k1: "Set exact_ops New ''k1'' [1, 0, 0] =
   (None, New\<lparr>dim := 3, shards := (shards New)[1 := [''k1'' \<mapsto> [1, 0, 0]]]\<rparr>)"
  by (simp add: Set_unfold new_dim_def int32_def Normalize_100 getShard_k1) (simp add: New_def ShardCount_def)

text \<open>
  Calls that do not overlap. Every store reached from a new store by calls of
  \<^verbatim>\<open>Set\<close>, \<^verbatim>\<open>Get\<close>, \<^verbatim>\<open>Delete\<close>, \<^verbatim>\<open>Count\<close>, \<^verbatim>\<open>Search\<close> and
  \<^verbatim>\<open>Clear\<close>, each run to its end before the next begins, satisfies the
  global-dimension invariant: once the dimension is non-zero every stored vector has
  exactly that length; and so does the store after one more call. A non-zero dimension is
  changed by \<^verbatim>\<open>Clear\<close> only, which resets it to 0; an unset dimension is changed by
  a call of \<^verbatim>\<open>Set\<close> only, which sets it to the \<^verbatim>\<open>int32\<close> of the length it is
  given, also when the call fails and stores nothing. The one fact of float arithmetic
  used is that the square root of zero compares equal to zero, so that the empty vector
  is not normalized.
\<close>

theorem sequential_dimension_invariant:
  assumes "f_eq ops (f_sqrt ops (f_zero ops)) (f_zero ops)"
  shows "dim_invariant (run ops calls) \<and>
         dim_invariant (apply_operation ops (run ops calls) call) \<and>
         (dim s \<noteq> 0 \<and> call \<noteq> OpClear \<longrightarrow> dim (apply_operation ops s call) = dim s) \<and>
         dim (apply_operation ops s OpClear) = 0 \<and>
         (dim s = 0 \<longrightarrow> dim (apply_operation ops s call) =
            (case call of OpSet key vs \<Rightarrow> int32 (int (length vs)) | _ \<Rightarrow> 0))"
proof -
  from assms have z: "Normalize ops [] = Inl ErrZeroVector" by (rule Normalize_Nil)
  have "run ops (calls @ [call]) = apply_operation ops (run ops calls) call"
    by (simp add: run_def)
  with run_invariant[OF z, of calls] run_invariant[OF z, of "calls @ [call]"]
  have "dim_invariant (run ops calls)" "dim_invariant (apply_operation ops (run ops calls) call)"
    by (simp_all add: store_invariant_dim_invariant)
  then show ?thesis
    by (cases call) (simp_all add: dim_Set new_dim_def Delete_def Let_def)
qed

text \<open>The same at a store with one vector of length 2: a write of another length and a
  \<^verbatim>\<open>Clear\<close>.\<close>

theorem sequential_dimension_invariant_example:
  "f_eq exact_ops (f_sqrt exact_ops (f_zero exact_ops)) (f_zero exact_ops) \<and>
   dim_invariant (run exact_ops [OpSet ''a'' [1, 0], OpSet ''b'' [0, 0, 1]]) \<and>
   dim_invariant (apply_operation exact_ops (run exact_ops [OpSet ''a'' [1, 0], OpSet ''b'' [0, 0, 1]]) (OpDelete ''a'')) \<and>
   dim (run exact_ops [OpSet ''a'' [1, 0]]) = 2 \<and>
   dim (apply_operation exact_ops (run exact_ops [OpSet ''a'' [1, 0]]) (OpSet ''b'' [0, 0, 1])) = 2 \<and>
   dim (apply_operation exact_ops (run exact_ops [OpSet ''a'' [1, 0]]) OpClear) = 0"
proof -
  have d: "dim (run exact_ops [OpSet ''a'' [1, 0]]) = 2"
    by (simp add: run_def dim_Set new_dim_def New_def int32_def)
  from sequential_dimension_invariant[OF exact_sqrt_zero,
      of "[OpSet ''a'' [1, 0], OpSet ''b'' [0, 0, 1]]" "OpDelete ''a''"
         "run exact_ops [OpSet ''a'' [1, 0]]"]
    sequential_dimension_invariant[OF exact_sqrt_zero,
      of "[]" "OpSet ''b'' [0, 0, 1]" "run exact_ops [OpSet ''a'' [1, 0]]"]
    exact_sqrt_zero d
  show ?thesis by simp
qed

text \<open>
  The interleaving agrees with the calls run alone: the steps of \<^verbatim>\<open>Set\<close> taken
  without another call in between make \<^verbatim>\<open>Set\<close>, and those of \<^verbatim>\<open>Clear\<close> make
  \<^verbatim>\<open>Clear\<close>.
\<close>

lemma interleave_append:
  "interleave ops (a @ b) cfg = interleave ops b (interleave ops a cfg)"
  by (induction ops a cfg rule: interleave.induct) simp_all

lemma Set_alone:
  "interleave ops [0, 0, 0, 0] ([SetLoad key vs], s) =
     ([Returned (fst (Set ops s key vs))], snd (Set ops s key vs))"
  by (simp add: Set_def Let_def SetCheck_def CompareAndSwap_def split: sum.splits)

lemma Clear_steps:
  assumes "t < length calls" "calls ! t = ClearLock i" "i < ShardCount"
  shows "interleave ops (replicate (ShardCount - i) t) (calls, s) =
         (calls[t := ClearStore],
          fold (\<lambda>i s'. s'\<lparr>shards := (shards s')[i := Map.empty]\<rparr>) [i..<ShardCount] s)"
  using assms
proof (induction "ShardCount - i" arbitrary: i calls s)
  case 0
  then show ?case by simp
next
  case (Suc n)
  then have r: "ShardCount - i = Suc (ShardCount - Suc i)" by simp
  show ?case
  proof (cases "Suc i < ShardCount")
    case True
    with Suc have n: "n = ShardCount - Suc i" by simp
    from Suc(1)[OF n, of "calls[t := ClearLock (Suc i)]" "s\<lparr>shards := (shards s)[i := Map.empty]\<rparr>"]
      Suc(3,4) True
    show ?thesis by (simp add: r upt_conv_Cons[of i])
  next
    case False
    with Suc have "Suc i = ShardCount" by simp
    with Suc(3,4) show ?thesis by (simp add: r upt_conv_Cons[of i])
  qed
qed

lemma Clear_thread:
  assumes "t < length calls" "calls ! t = ClearLock 0"
  shows "interleave ops (replicate (ShardCount + 1) t) (calls, s) =
         (calls[t := Returned None], Clear s)"
proof -
  have "replicate (ShardCount + 1) t = replicate (ShardCount - 0) t @ [t]"
    by (simp add: replicate_append_same)
  moreover have "0 < ShardCount" by (simp add: ShardCount_def)
  ultimately show ?thesis
    using Clear_steps[OF assms, of ops s] assms(1)
    by (simp add: interleave_append Clear_def del: replicate_Suc replicate.simps)
qed

lemma Clear_alone:
  "interleave ops (replicate (ShardCount + 1) 0) ([ClearLock 0], s) = ([Returned None], Clear s)"
  using Clear_thread[of 0 "[ClearLock 0]" ops s] by simp

lemma Clear_New_dim: "Clear (New\<lparr>dim := d\<rparr>) = (New :: 'f Storage)"
  by (simp add: Clear_eq length_shards_New) (simp add: New_def map_replicate_const)

text \<open>The example step by step.\<close>

lemma race_result:
  "interleave exact_ops race_schedule (race_calls, New) =
     ([Returned None, Returned None],
      New\<lparr>shards := (shards New)[1 := [''k1'' \<mapsto> [1, 0, 0]]]\<rparr>)"
proof -
  have 1: "interleave exact_ops [0, 0, 0] (race_calls, New) =
     ([SetLock ''k1'' [1, 0, 0], ClearLock 0], New\<lparr>dim := 3\<rparr>)"
    by (simp add: race_calls_def SetCheck_def CompareAndSwap_def int32_def Normalize_100)
       (simp add: New_def)
  have 2: "interleave exact_ops (replicate (ShardCount + 1) 1)
             ([SetLock ''k1'' [1, 0, 0], ClearLock 0], New\<lparr>dim := 3\<rparr>) =
           ([SetLock ''k1'' [1, 0, 0], Returned None], New)"
    using Clear_thread[of 1 "[SetLock ''k1'' [1, 0, 0], ClearLock 0]" exact_ops "New\<lparr>dim := 3\<rparr>"]
    by (simp add: Clear_New_dim del: replicate_Suc replicate.simps)
  have 3: "interleave exact_ops [0] ([SetLock ''k1'' [1, 0, 0], Returned None], New) =
     ([Returned None, Returned None],
      New\<lparr>shards := (shards New)[1 := [''k1'' \<mapsto> [1, 0, 0]]]\<rparr>)"
    by (simp add: getShard_k1) (simp add: New_def ShardCount_def)
  show ?thesis
    unfolding race_schedule_def interleave_append 1 2 3 ..
qed

lemma race_store_eq:
  "race_store = New\<lparr>shards := (shards New)[1 := [''k1'' \<mapsto> [1, 0, 0]]]\<rparr>"
  by (simp add: race_store_def race_result)

lemma race_Set_a:
  "Set exact_ops race_store ''a'' [1, 0] =
     (None, New\<lparr>dim := 2,
        shards := (shards New)[1 := [''k1'' \<mapsto> [1, 0, 0]], 12 := [''a'' \<mapsto> [1, 0]]]\<rparr>)"
  by (simp add: race_store_eq Set_unfold new_dim_def int32_def Normalize_10 getShard_a)
     (simp add: New_def ShardCount_def)

lemma race_Get_k1:
  "Get (snd (Set exact_ops race_store ''a'' [1, 0])) ''k1'' = Some [1, 0, 0]"
  by (simp add: race_Set_a Get_def getShard_k1) (simp add: New_def ShardCount_def)

lemma race_stored:
  "[1, 0, 0] \<in> stored (snd (Set exact_ops race_store ''a'' [1, 0]))"
  using race_Get_k1 getShard_less[of "''k1''"] by (auto simp: stored_def Get_def)

text \<open>
  Claim C1, at an interleaving where the code departs from it. On a new store
  \<^verbatim>\<open>Set("k1", [1, 0, 0])\<close> and \<^verbatim>\<open>Clear()\<close> overlap. \<^verbatim>\<open>Set\<close> loads the
  dimension, fixes it to 3, loads it again, finds the length right and normalizes the
  vector; before it takes the lock of its shard, \<^verbatim>\<open>Clear\<close> empties all shards and
  stores 0 in the dimension; then \<^verbatim>\<open>Set\<close> writes its vector. Both calls return
  without an error, and the store holds a vector of length 3 while its dimension is
  unset. A following \<^verbatim>\<open>Set("a", [1, 0])\<close> succeeds and fixes the dimension to 2:
  the dimension is non-zero, and the vector stored under \<^verbatim>\<open>k1\<close> has another length.
\<close>

theorem Set_overlapping_Clear_breaks_invariant:
  "interleave exact_ops race_schedule (race_calls, New) =
     ([Returned None, Returned None], race_store) \<and>
   Dimension race_store = 0 \<and>
   Get race_store ''k1'' = Some [1, 0, 0] \<and>
   fst (Set exact_ops race_store ''a'' [1, 0]) = None \<and>
   Dimension (snd (Set exact_ops race_store ''a'' [1, 0])) = 2 \<and>
   Get (snd (Set exact_ops race_store ''a'' [1, 0])) ''k1'' = Some [1, 0, 0] \<and>
   [1, 0, 0] \<in> stored (snd (Set exact_ops race_store ''a'' [1, 0])) \<and>
   int (length [1, 0, 0 :: real]) \<noteq> Dimension (snd (Set exact_ops race_store ''a'' [1, 0]))"
proof -
  have r: "interleave exact_ops race_schedule (race_calls, New) =
     ([Returned None, Returned None], race_store)"
    by (simp add: race_store_def race_result)
  have d: "Dimension race_store = 0"
    by (simp add: race_store_eq Dimension_def) (simp add: New_def)
  have g: "Get race_store ''k1'' = Some [1, 0, 0]"
    by (simp add: race_store_eq Get_def getShard_k1) (simp add: New_def ShardCount_def)
  have s: "fst (Set exact_ops race_store ''a'' [1, 0]) = None"
    by (simp add: race_Set_a)
  have d': "Dimension (snd (Set exact_ops race_store ''a'' [1, 0])) = 2"
    by (simp add: race_Set_a Dimension_def)
  from r d g s d' race_Get_k1 race_stored show ?thesis by simp
qed

text \<open>
  In the terms of the invariant: it holds of the store the two overlapping calls leave
  behind, since the dimension is unset, and fails after the next write. And that store is
  none that the two calls leave behind when one runs after the other: \<^verbatim>\<open>Clear\<close>
  after \<^verbatim>\<open>Set\<close> leaves no entry, \<^verbatim>\<open>Set\<close> after \<^verbatim>\<open>Clear\<close> leaves the
  dimension 3.
\<close>

lemma race_breaks_dim_invariant:
  "dim_invariant race_store \<and> \<not> dim_invariant (snd (Set exact_ops race_store ''a'' [1, 0]))"
proof -
  have "dim race_store = 0" by (simp add: race_store_eq) (simp add: New_def)
  then have "dim_invariant race_store" by (simp add: dim_invariant_def)
  moreover have "dim (snd (Set exact_ops race_store ''a'' [1, 0])) = 2"
    by (simp add: race_Set_a)
  with race_stored have "\<not> dim_invariant (snd (Set exact_ops race_store ''a'' [1, 0]))"
    by (auto simp: dim_invariant_def intro!: bexI[of _ "[1, 0, 0]"])
  ultimately show ?thesis by simp
qed

lemma race_store_not_sequential:
  "race_store \<noteq> Clear (snd (Set exact_ops New ''k1'' [1, 0, 0])) \<and>
   race_store \<noteq> snd (Set exact_ops (Clear New) ''k1'' [1, 0, 0])"
proof -
  have g: "Get race_store ''k1'' = Some [1, 0, 0]"
    by (simp add: race_store_eq Get_def getShard_k1) (simp add: New_def ShardCount_def)
  have "Get (Clear (snd (Set exact_ops New ''k1'' [1, 0, 0]))) ''k1'' = None"
    using getShard_less[of "''k1''"] by (simp add: Get_def Clear_eq length_shards_New)
  with g have 1: "race_store \<noteq> Clear (snd (Set exact_ops New ''k1'' [1, 0, 0]))" by auto
  have "dim race_store = 0" by (simp add: race_store_eq) (simp add: New_def)
  moreover have "dim (snd (Set exact_ops (Clear New) ''k1'' [1, 0, 0])) = 3"
    by (simp add: dim_Set new_dim_def int32_def)
  ultimately have 2: "race_store \<noteq> snd (Set exact_ops (Clear New) ''k1'' [1, 0, 0])" by auto
  from 1 2 show ?thesis by simp
qed

text \<open>
  What a failing \<^verbatim>\<open>Set\<close> does keep: the maps of all shards; and on a store whose
  dimension is fixed, a vector of that length that cannot be normalized leaves the whole
  store as it was.
\<close>

lemma Set_failure_keeps_entries:
  "fst (Set ops s key vs) \<noteq> None \<Longrightarrow> shards (snd (Set ops s key vs)) = shards s"
  by (auto simp: Set_unfold split: sum.splits if_splits)

lemma Set_zero_vector_fixed_dimension:
  assumes "dim s \<noteq> 0" and "int (length vs) = dim s" and "Normalize ops vs = Inl err"
  shows "Set ops s key vs = (Some (NormalizeVectorFailed err), s)"
  using assms by (simp add: Set_unfold new_dim_def)

text \<open>
  Claim C3, at the input where the code departs from it. On a new store, whose dimension
  is unset, \<^verbatim>\<open>Set("z", [0, 0, 0])\<close> fails with the zero-vector error and stores no
  entry, but the dimension it leaves behind is 3 and no longer 0: the compare-and-swap
  runs before the vector is normalized. A following \<^verbatim>\<open>Set("a", [1, 0])\<close> is then
  rejected with a dimension mismatch although the store holds no vector.
\<close>

theorem Set_zero_vector_fixes_dimension:
  "Set exact_ops New ''z'' [0, 0, 0] =
     (Some (NormalizeVectorFailed ErrZeroVector), New\<lparr>dim := 3\<rparr>) \<and>
   Dimension (New :: real Storage) = 0 \<and>
   Dimension (snd (Set exact_ops New ''z'' [0, 0, 0])) = 3 \<and>
   Get (snd (Set exact_ops New ''z'' [0, 0, 0])) ''z'' = None \<and>
   Count (snd (Set exact_ops New ''z'' [0, 0, 0])) = 0 \<and>
   fst (Set exact_ops (snd (Set exact_ops New ''z'' [0, 0, 0])) ''a'' [1, 0]) =
     Some (SetDimensionMismatch 3 2)"
proof -
  have 1: "Set exact_ops New ''z'' [0, 0, 0] =
     (Some (NormalizeVectorFailed ErrZeroVector), New\<lparr>dim := 3\<rparr>)"
    by (simp add: Set_unfold new_dim_def int32_def Normalize_000) (simp add: New_def)
  have 2: "Get (New\<lparr>dim := 3\<rparr> :: real Storage) ''z'' = None"
    using getShard_less[of "''z''"] by (simp add: Get_def New_def)
  have 3: "Count (New\<lparr>dim := 3\<rparr> :: real Storage) = 0"
    by (rule Count_empty) (simp add: New_def)
  have 4: "fst (Set exact_ops (New\<lparr>dim := 3\<rparr>) ''a'' [1, 0]) = Some (SetDimensionMismatch 3 2)"
    by (simp add: Set_def Let_def)
  from 1 2 3 4 show ?thesis by (simp add: Dimension_def) (simp add: New_def)
qed

text \<open>
  Claim C5. On a store whose dimension is fixed to a non-zero \<open>d\<close>, \<^verbatim>\<open>Set\<close> with a
  vector of another length returns the dimension-mismatch error and the very store it was
  given: every entry, the one under the same key included, reads back through \<^verbatim>\<open>Get\<close>
  as before, and the dimension is still \<open>d\<close>.
\<close>

theorem Set_dimension_mismatch_atomic:
  assumes "dim s \<noteq> 0" and "int (length vs) \<noteq> dim s"
  shows "Set ops s key vs = (Some (SetDimensionMismatch (dim s) (int (length vs))), s) \<and>
         (\<forall>key'. Get (snd (Set ops s key vs)) key' = Get s key') \<and>
         Dimension (snd (Set ops s key vs)) = dim s"
proof -
  from assms have "Set ops s key vs = (Some (SetDimensionMismatch (dim s) (int (length vs))), s)"
    by (simp add: Set_def Let_def)
  then show ?thesis by (simp add: Dimension_def)
qed

text \<open>C5 at the spec's scenario: a vector of length 3 under \<^verbatim>\<open>k1\<close>, then one of
  length 2 under \<^verbatim>\<open>k2\<close>.\<close>

theorem Set_dimension_mismatch_atomic_witness:
  "dim (snd (Set exact_ops New ''k1'' [1, 0, 0])) \<noteq> 0 \<and>
   int (length [1, 0 :: real]) \<noteq> dim (snd (Set exact_ops New ''k1'' [1, 0, 0])) \<and>
   Set exact_ops (snd (Set exact_ops New ''k1'' [1, 0, 0])) ''k2'' [1, 0] =
     (Some (SetDimensionMismatch 3 2), snd (Set exact_ops New ''k1'' [1, 0, 0])) \<and>
   Get (snd (Set exact_ops (snd (Set exact_ops New ''k1'' [1, 0, 0])) ''k2'' [1, 0])) ''k1'' =
     Some [1, 0, 0] \<and>
   Get (snd (Set exact_ops (snd (Set exact_ops New ''k1'' [1, 0, 0])) ''k2'' [1, 0])) ''k2'' = None"
proof -
  let ?s = "snd (Set exact_ops New ''k1'' [1, 0, 0])"
  have d: "dim ?s = 3" by (simp add: Set_k1)
  have g1: "Get ?s ''k1'' = Some [1, 0, 0]"
    by (simp add: Set_k1 Get_def getShard_k1) (simp add: New_def ShardCount_def)
  have g2: "Get ?s ''k2'' = None"
    by (simp add: Set_k1 Get_def getShard_k2) (simp add: New_def ShardCount_def)
  from Set_dimension_mismatch_atomic[of ?s "[1, 0]" exact_ops "''k2''"] d g1 g2
  show ?thesis by simp
qed




lemma int32_range: "- (2 ^ 31) \<le> int32 n \<and> int32 n < 2 ^ 31"
proof -
  have "0 \<le> (n + 2 ^ 31) mod 2 ^ 32" "(n + 2 ^ 31) mod 2 ^ 32 < (2 ^ 32 :: int)"
    by simp_all
  then show ?thesis by (simp add: int32_def)
qed


lemma Set_after_Clear_too_long:
  assumes "2 ^ 31 \<le> int (length vs)"
  shows "Set ops (Clear s) key vs =
     (Some (SetDimensionMismatch (int32 (int (length vs))) (int (length vs))),
      (Clear s)\<lparr>dim := int32 (int (length vs))\<rparr>)"
proof -
  from assms int32_range[of "int (length vs)"] have "int (length vs) \<noteq> int32 (int (length vs))"
    by simp
  then show ?thesis by (simp add: Set_unfold new_dim_def)
qed


section \<open>Properties of the heap and of Search\<close>

lemma swo_asym: "strict_weak_order_on A lt \<Longrightarrow> x \<in> A \<Longrightarrow> y \<in> A \<Longrightarrow> lt x y \<Longrightarrow> \<not> lt y x"
  by (auto simp: strict_weak_order_on_def)

lemma swo_trans_ge:
  "strict_weak_order_on A lt \<Longrightarrow> x \<in> A \<Longrightarrow> y \<in> A \<Longrightarrow> z \<in> A \<Longrightarrow>
   \<not> lt x y \<Longrightarrow> \<not> lt y z \<Longrightarrow> \<not> lt x z"
  unfolding strict_weak_order_on_def by blast

lemma length_Swap [simp]: "length (Swap h i j) = length h"
  by (simp add: Swap_def)

lemma set_Swap [simp]: "i < length h \<Longrightarrow> j < length h \<Longrightarrow> set (Swap h i j) = set h"
  by (simp add: Swap_def set_swap)

lemma nth_Swap:
  "i < length h \<Longrightarrow> j < length h \<Longrightarrow>
   Swap h i j ! k = (if k = j then h ! i else if k = i then h ! j else h ! k)"
  by (auto simp: Swap_def nth_list_update)

lemma up_simps': "up lt h j = (if (j - 1) div 2 = j \<or> \<not> lt (h ! j) (h ! ((j - 1) div 2)) then h
   else up lt (Swap h ((j - 1) div 2) j) ((j - 1) div 2))"
  by (subst up.simps) (simp add: Let_def)

declare up.simps [simp del]

declare down.simps [simp del]

lemma length_up [simp]: "length (up lt h j) = length h"
  by (induction lt h j rule: up.induct) (subst up_simps', simp)

lemma set_up [simp]: "j < length h \<Longrightarrow> set (up lt h j) = set h"
proof (induction lt h j rule: up.induct)
  case (1 lt h j)
  show ?case
  proof (cases "(j - 1) div 2 = j \<or> \<not> lt (h ! j) (h ! ((j - 1) div 2))")
    case True
    then show ?thesis by (subst up_simps') simp
  next
    case False
    moreover have "(j - 1) div 2 < length h" using "1.prems" by simp
    ultimately show ?thesis using 1 by (subst up_simps') simp
  qed
qed

lemma up_inv_step:
  assumes swo: "strict_weak_order_on A lt" and sub: "set h \<subseteq> A" and j: "j < length h"
    and inv: "up_inv lt h j" and ne: "(j - 1) div 2 \<noteq> j" and lt: "lt (h ! j) (h ! ((j - 1) div 2))"
  shows "up_inv lt (Swap h ((j - 1) div 2) j) ((j - 1) div 2)"
proof -
  define i where "i = (j - 1) div 2"
  define h' where "h' = Swap h i j"
  from ne have j0: "0 < j" and ij: "i < j" by (auto simp: i_def)
  from ij j have il: "i < length h" by simp
  have mem: "h ! c \<in> A" if "c < length h" for c using that sub by auto
  have nth: "h' ! k = (if k = j then h ! i else if k = i then h ! j else h ! k)" for k
    unfolding h'_def using nth_Swap[OF il j] by simp
  have edge: "\<not> lt (h ! c) (h ! ((c - 1) div 2))" if "c < length h" "0 < c" "c \<noteq> j" for c
    using inv that by (simp add: up_inv_def)
  have grand: "\<not> lt (h ! c) (h ! i)" if "c < length h" "0 < c" "(c - 1) div 2 = j" for c
    using inv that j0 by (simp add: up_inv_def i_def)
  have pj: "(j - 1) div 2 = i" by (simp add: i_def)
  have lt': "lt (h ! j) (h ! i)" using lt by (simp add: i_def)
  have asym: "\<not> lt (h ! i) (h ! j)"
    using swo_asym[OF swo mem[OF j] mem[OF il] lt'] .
  have first: "\<not> lt (h' ! c) (h' ! ((c - 1) div 2))" if c: "c < length h" "0 < c" "c \<noteq> i" for c
  proof (cases "c = j")
    case True
    then show ?thesis using asym ij pj by (simp add: nth)
  next
    case cj: False
    have pc: "(c - 1) div 2 < c" using c(2) by simp
    consider "(c - 1) div 2 = j" | "(c - 1) div 2 = i" | "(c - 1) div 2 \<noteq> j" "(c - 1) div 2 \<noteq> i"
      by blast
    then show ?thesis
    proof cases
      case 1
      then show ?thesis using grand[OF c(1,2)] cj c(3) by (simp add: nth)
    next
      case 2
      have "\<not> lt (h ! c) (h ! i)" using edge[OF c(1,2) cj] 2 by simp
      moreover have "\<not> lt (h ! i) (h ! j)" by (rule asym)
      ultimately have "\<not> lt (h ! c) (h ! j)"
        using swo_trans_ge[OF swo mem[OF c(1)] mem[OF il] mem[OF j]] by blast
      then show ?thesis using 2 cj c(3) ij by (simp add: nth)
    next
      case 3
      then show ?thesis using edge[OF c(1,2) cj] cj c(3) by (simp add: nth)
    qed
  qed
  have second: "\<not> lt (h' ! c) (h' ! ((i - 1) div 2))"
    if c: "c < length h" "0 < c" "(c - 1) div 2 = i" "0 < i" for c
  proof -
    have pi: "(i - 1) div 2 < i" using c(4) by simp
    then have pil: "(i - 1) div 2 < length h" using il by simp
    have top: "h' ! ((i - 1) div 2) = h ! ((i - 1) div 2)" using pi ij by (simp add: nth)
    have e_i: "\<not> lt (h ! i) (h ! ((i - 1) div 2))" using edge[OF il c(4)] ij by simp
    have ci: "c \<noteq> i" using c(2,3) by auto
    show ?thesis
    proof (cases "c = j")
      case True
      then show ?thesis using e_i top ij by (simp add: nth)
    next
      case False
      have "\<not> lt (h ! c) (h ! i)" using edge[OF c(1,2) False] c(3) by simp
      with e_i have "\<not> lt (h ! c) (h ! ((i - 1) div 2))"
        using swo_trans_ge[OF swo mem[OF c(1)] mem[OF il] mem[OF pil]] by blast
      then show ?thesis using top False ci by (simp add: nth)
    qed
  qed
  from first second show ?thesis
    unfolding up_inv_def i_def[symmetric] h'_def[symmetric] by (simp add: h'_def)
qed

lemma up_heap_ok:
  assumes "strict_weak_order_on A lt" "set h \<subseteq> A" "j < length h" "up_inv lt h j"
  shows "heap_ok lt (up lt h j)"
  using assms
proof (induction lt h j rule: up.induct)
  case (1 lt h j)
  show ?case
  proof (cases "(j - 1) div 2 = j \<or> \<not> lt (h ! j) (h ! ((j - 1) div 2))")
    case True
    have "heap_ok lt h"
      unfolding heap_ok_def
    proof (intro allI impI)
      fix c assume c: "c < length h" "0 < c"
      show "\<not> lt (h ! c) (h ! ((c - 1) div 2))"
      proof (cases "c = j")
        case cj: True
        with c True show ?thesis by auto
      next
        case False
        with c "1.prems"(4) show ?thesis by (simp add: up_inv_def)
      qed
    qed
    with True show ?thesis by (subst up_simps') simp
  next
    case False
    then have ne: "(j - 1) div 2 \<noteq> j" and lt: "lt (h ! j) (h ! ((j - 1) div 2))" by auto
    have il: "(j - 1) div 2 < length h" using "1.prems"(3) by simp
    have inv': "up_inv lt (Swap h ((j - 1) div 2) j) ((j - 1) div 2)"
      using up_inv_step[OF "1.prems"(1,2,3,4) ne lt] .
    have "heap_ok lt (up lt (Swap h ((j - 1) div 2) j) ((j - 1) div 2))"
      using "1.IH"[OF refl _ "1.prems"(1) _ _ inv'] False il "1.prems"(2,3) by simp
    with False show ?thesis by (subst up_simps') simp
  qed
qed

lemma down_unfold:
  "down lt h i n =
     (if 2 * i + 1 \<ge> n \<or> \<not> lt (h ! min_child lt h i n) (h ! i) then h
      else down lt (Swap h i (min_child lt h i n)) (min_child lt h i n) n)"
  by (subst down.simps) (simp add: Let_def min_child_def)

lemma min_child_bounds: "2 * i + 1 < n \<Longrightarrow> i < min_child lt h i n \<and> min_child lt h i n < n"
  by (simp add: min_child_def)

lemma down_induct [consumes 0, case_names stop step]:
  assumes stop: "\<And>h i. 2 * i + 1 \<ge> n \<or> \<not> lt (h ! min_child lt h i n) (h ! i) \<Longrightarrow> P h i"
    and step: "\<And>h i. 2 * i + 1 < n \<Longrightarrow> lt (h ! min_child lt h i n) (h ! i) \<Longrightarrow>
        P (Swap h i (min_child lt h i n)) (min_child lt h i n) \<Longrightarrow> P h i"
  shows "P h i"
proof (induction "n - i" arbitrary: h i rule: less_induct)
  case less
  show ?case
  proof (cases "2 * i + 1 \<ge> n \<or> \<not> lt (h ! min_child lt h i n) (h ! i)")
    case True
    then show ?thesis by (rule stop)
  next
    case False
    then have c: "2 * i + 1 < n" and l: "lt (h ! min_child lt h i n) (h ! i)" by auto
    from min_child_bounds[OF c, of lt h] have "n - min_child lt h i n < n - i" by arith
    from less[OF this] step[OF c l] show ?thesis by blast
  qed
qed

lemma parent_child: "0 < c \<Longrightarrow> (c - 1) div 2 = i \<longleftrightarrow> c = 2 * i + 1 \<or> c = 2 * i + (2::nat)"
  by arith

lemma down_props:
  "n \<le> length h \<Longrightarrow>
   length (down lt h i n) = length h \<and> set (down lt h i n) = set h \<and>
   (\<forall>k \<ge> n. down lt h i n ! k = h ! k)"
proof (induction h i rule: down_induct[of n lt])
  case (stop h i)
  then show ?case by (subst (1 2 3) down_unfold) simp
next
  case (step h i)
  from min_child_bounds[OF step(1), of lt h] step.prems
  have b: "i < min_child lt h i n" "min_child lt h i n < n" "min_child lt h i n < length h" "i < length h"
    by auto
  have "down lt h i n = down lt (Swap h i (min_child lt h i n)) (min_child lt h i n) n"
    using step(1,2) by (subst down_unfold) simp
  with step.IH step.prems b show ?case by (auto simp: nth_Swap)
qed

lemma down_inv_step:
  assumes swo: "strict_weak_order_on A lt" and sub: "set h \<subseteq> A" and n: "n \<le> length h"
    and inv: "down_inv lt h i n" and c: "2 * i + 1 < n" and lt: "lt (h ! min_child lt h i n) (h ! i)"
  shows "down_inv lt (Swap h i (min_child lt h i n)) (min_child lt h i n) n"
proof -
  define j where "j = min_child lt h i n"
  define h' where "h' = Swap h i j"
  from min_child_bounds[OF c, of lt h] have ij: "i < j" and jn: "j < n" by (auto simp: j_def)
  from jn n ij have jl: "j < length h" and il: "i < length h" by auto
  have pj: "(j - 1) div 2 = i" using c by (auto simp: j_def min_child_def)
  have mem: "h ! c \<in> A" if "c < n" for c using that sub n by auto
  have nth: "h' ! k = (if k = j then h ! i else if k = i then h ! j else h ! k)" for k
    unfolding h'_def using nth_Swap[OF il jl] by simp
  have edge: "\<not> lt (h ! c) (h ! ((c - 1) div 2))" if "c < n" "0 < c" "(c - 1) div 2 \<noteq> i" for c
    using inv that by (simp add: down_inv_def)
  have grand: "\<not> lt (h ! c) (h ! ((i - 1) div 2))" if "c < n" "0 < c" "(c - 1) div 2 = i" "0 < i" for c
    using inv that by (simp add: down_inv_def)
  have lt': "lt (h ! j) (h ! i)" using lt by (simp add: j_def)
  have iN: "i < n" using ij jn by simp
  have asym: "\<not> lt (h ! i) (h ! j)"
    using swo_asym[OF swo mem[OF jn] mem[OF iN] lt'] .
  have sibling: "\<not> lt (h ! c) (h ! j)" if cc: "c < n" "0 < c" "(c - 1) div 2 = i" "c \<noteq> j" for c
  proof -
    from cc(2,3) have cs: "c = 2 * i + 1 \<or> c = 2 * i + 2" using parent_child[of c i] by blast
    show ?thesis
    proof (cases "j = 2 * i + 2")
      case True
      with cs cc(4) have c1: "c = 2 * i + 1" by simp
      from True have "lt (h ! (2 * i + 2)) (h ! (2 * i + 1))"
        by (auto simp: j_def min_child_def split: if_splits)
      with swo_asym[OF swo mem mem this] cc(1) jn c1 True show ?thesis by simp
    next
      case False
      then have j1: "j = 2 * i + 1" by (auto simp: j_def min_child_def split: if_splits)
      with cs cc(4) have c2: "c = 2 * i + 2" by simp
      with cc(1) j1 show ?thesis by (auto simp: j_def min_child_def split: if_splits)
    qed
  qed
  have first: "\<not> lt (h' ! c) (h' ! ((c - 1) div 2))" if cc: "c < n" "0 < c" "(c - 1) div 2 \<noteq> j" for c
  proof -
    have pc: "(c - 1) div 2 < c" using cc(2) by simp
    consider "c = j" | "c \<noteq> j" "(c - 1) div 2 = i" | "c = i" | "c \<noteq> j" "c \<noteq> i" "(c - 1) div 2 \<noteq> i"
      by blast
    then show ?thesis
    proof cases
      case 1
      then show ?thesis using asym ij pj by (simp add: nth)
    next
      case 2
      with sibling[OF cc(1,2)] have "\<not> lt (h ! c) (h ! j)" by simp
      moreover have "c \<noteq> i" using 2(2) pc by simp
      ultimately show ?thesis using 2 ij by (simp add: nth)
    next
      case 3
      with cc(2) have i0: "0 < i" by simp
      have "(i - 1) div 2 < i" using i0 by simp
      then have "h' ! ((i - 1) div 2) = h ! ((i - 1) div 2)" using ij by (simp add: nth)
      moreover have "\<not> lt (h ! j) (h ! ((i - 1) div 2))"
        using grand[OF jn _ pj i0] ij by simp
      ultimately show ?thesis using 3 ij by (simp add: nth)
    next
      case 4
      with edge[OF cc(1,2)] cc(3) show ?thesis by (simp add: nth)
    qed
  qed
  have second: "\<not> lt (h' ! c) (h' ! ((j - 1) div 2))" if cc: "c < n" "0 < c" "(c - 1) div 2 = j" for c
  proof -
    have "j < c" using cc(2,3) by auto
    with ij have "c \<noteq> i" "c \<noteq> j" by auto
    moreover have "\<not> lt (h ! c) (h ! j)" using edge[OF cc(1,2)] cc(3) ij by simp
    ultimately show ?thesis using pj ij by (simp add: nth)
  qed
  from first second show ?thesis
    unfolding down_inv_def j_def[symmetric] h'_def[symmetric] by simp
qed

lemma down_inv_stop:
  assumes swo: "strict_weak_order_on A lt" and sub: "set h \<subseteq> A" and n: "n \<le> length h"
    and inv: "down_inv lt h i n" and stop: "2 * i + 1 \<ge> n \<or> \<not> lt (h ! min_child lt h i n) (h ! i)"
  shows "heap_prefix_ok lt h n"
  unfolding heap_prefix_ok_def
proof (intro allI impI)
  fix c assume cc: "c < n" "0 < c"
  have mem: "h ! c \<in> A" if "c < n" for c using that sub n by auto
  show "\<not> lt (h ! c) (h ! ((c - 1) div 2))"
  proof (cases "(c - 1) div 2 = i")
    case False
    with inv cc show ?thesis by (simp add: down_inv_def)
  next
    case True
    with cc(2) have cs: "c = 2 * i + 1 \<or> c = 2 * i + 2" using parent_child[of c i] by blast
    with cc(1) have c1: "2 * i + 1 < n" by auto
    with stop have nl: "\<not> lt (h ! min_child lt h i n) (h ! i)" by simp
    have il: "i < n" using c1 by simp
    show ?thesis
    proof (cases "c = min_child lt h i n")
      case True
      with nl \<open>(c - 1) div 2 = i\<close> show ?thesis by simp
    next
      case False
      show ?thesis
      proof (cases "min_child lt h i n = 2 * i + 2")
        case m2: True
        then have l21: "lt (h ! (2 * i + 2)) (h ! (2 * i + 1))" and b2: "2 * i + 2 < n"
          by (auto simp: min_child_def split: if_splits)
        from m2 False cs have c1': "c = 2 * i + 1" by simp
        have "\<not> lt (h ! (2 * i + 1)) (h ! (2 * i + 2))"
          using swo_asym[OF swo mem[OF b2] mem[OF c1] l21] .
        moreover have "\<not> lt (h ! (2 * i + 2)) (h ! i)" using nl m2 by simp
        ultimately have "\<not> lt (h ! (2 * i + 1)) (h ! i)"
          using swo_trans_ge[OF swo mem[OF c1] mem[OF b2] mem[OF il]] by blast
        with c1' True show ?thesis by simp
      next
        case m1: False
        then have m: "min_child lt h i n = 2 * i + 1" by (auto simp: min_child_def split: if_splits)
        with False cs have c2: "c = 2 * i + 2" by simp
        with cc(1) m have "\<not> lt (h ! (2 * i + 2)) (h ! (2 * i + 1))"
          by (auto simp: min_child_def split: if_splits)
        moreover have "\<not> lt (h ! (2 * i + 1)) (h ! i)" using nl m by simp
        ultimately have "\<not> lt (h ! (2 * i + 2)) (h ! i)"
          using swo_trans_ge[OF swo mem mem[OF c1] mem[OF il]] cc(1) c2 by blast
        with c2 True show ?thesis by simp
      qed
    qed
  qed
qed

lemma down_heap_ok:
  assumes swo: "strict_weak_order_on A lt"
  shows "set h \<subseteq> A \<Longrightarrow> n \<le> length h \<Longrightarrow> down_inv lt h i n \<Longrightarrow>
         heap_prefix_ok lt (down lt h i n) n"
proof (induction h i rule: down_induct[of n lt])
  case (stop h i)
  from down_inv_stop[OF swo stop.prems stop.hyps] stop.hyps
  show ?case by (subst down_unfold) simp
next
  case (step h i)
  from min_child_bounds[OF step.hyps(1), of lt h] step.prems(2)
  have b: "min_child lt h i n < length h" "i < length h" by auto
  have "down_inv lt (Swap h i (min_child lt h i n)) (min_child lt h i n) n"
    using down_inv_step[OF swo step.prems step.hyps(1,2)] .
  with step.IH step.prems b
  have "heap_prefix_ok lt (down lt (Swap h i (min_child lt h i n)) (min_child lt h i n) n) n"
    by simp
  with step.hyps show ?case by (subst down_unfold) simp
qed

lemma heap_Push_props:
  "length (heap_Push lt h x) = Suc (length h) \<and> set (heap_Push lt h x) = insert x (set h)"
  by (simp add: heap_Push_def)

lemma heap_Push_ok:
  assumes swo: "strict_weak_order_on A lt" and sub: "set h \<subseteq> A" and x: "x \<in> A"
    and ok: "heap_ok lt h"
  shows "heap_ok lt (heap_Push lt h x)"
proof -
  have "up_inv lt (h @ [x]) (length h)"
    unfolding up_inv_def
  proof (intro conjI allI impI)
    fix c assume c: "c < length (h @ [x])" "0 < c" "c \<noteq> length h"
    then have "c < length h" by simp
    moreover from this c(2) have "(c - 1) div 2 < length h" by simp
    ultimately show "\<not> lt ((h @ [x]) ! c) ((h @ [x]) ! ((c - 1) div 2))"
      using ok c(2) by (simp add: heap_ok_def nth_append)
  next
    fix c assume c: "c < length (h @ [x])" "0 < c" "(c - 1) div 2 = length h"
    then have False by auto
    then show "\<not> lt ((h @ [x]) ! c) ((h @ [x]) ! ((length h - 1) div 2))" ..
  qed
  moreover have "set (h @ [x]) \<subseteq> A" using sub x by simp
  ultimately show ?thesis
    unfolding heap_Push_def using up_heap_ok[OF swo, of "h @ [x]" "length h"] by simp
qed

lemma heap_Pop_unfold:
  assumes "h \<noteq> []"
  shows "heap_Pop lt h =
    Inr (h ! 0, take (length h - 1) (down lt (Swap h 0 (length h - 1)) 0 (length h - 1)))"
proof -
  define n where "n = length h - 1"
  define h2 where "h2 = down lt (Swap h 0 n) 0 n"
  from assms have nl: "n < length h" and zl: "0 < length h" by (auto simp: n_def)
  then have "n \<le> length (Swap h 0 n)" by simp
  from down_props[OF this, of lt 0] have l2: "length h2 = length h"
    and k2: "h2 ! n = Swap h 0 n ! n"
    by (simp_all add: h2_def)
  from k2 nl zl have last: "h2 ! n = h ! 0" using nth_Swap[of 0 h n n] by simp
  have "heap_Pop lt h = Inr (h2 ! (length h2 - 1), take (length h2 - 1) h2)"
    using assms unfolding heap_Pop_def Let_def h2_def n_def by simp
  with l2 last show ?thesis unfolding h2_def n_def by simp
qed

lemma heap_Pop_props:
  assumes "h \<noteq> []"
  shows "\<exists>h'. heap_Pop lt h = Inr (h ! 0, h') \<and> length h' = length h - 1 \<and>
           set h = insert (h ! 0) (set h')"
proof -
  define n where "n = length h - 1"
  define h2 where "h2 = down lt (Swap h 0 n) 0 n"
  from assms have nl: "n < length h" and zl: "0 < length h" by (auto simp: n_def)
  then have "n \<le> length (Swap h 0 n)" by simp
  from down_props[OF this, of lt 0] nl zl have l2: "length h2 = length h"
    and s2: "set h2 = set h" and k2: "h2 ! n = Swap h 0 n ! n"
    by (simp_all add: h2_def)
  from k2 nl zl have last: "h2 ! n = h ! 0" using nth_Swap[of 0 h n n] by simp
  have pop: "heap_Pop lt h = Inr (h ! 0, take n h2)"
    using heap_Pop_unfold[OF assms, of lt] by (simp add: h2_def n_def)
  have "h2 = take n h2 @ [h2 ! n]"
    using l2 nl by (simp add: n_def take_Suc_conv_app_nth[symmetric])
  then have "set h2 = insert (h2 ! n) (set (take n h2))"
    by (metis Un_insert_right append_Nil2 list.simps(15) set_append)
  with s2 last have "set h = insert (h ! 0) (set (take n h2))" by simp
  with pop l2 nl show ?thesis by (auto simp: n_def)
qed

lemma heap_Pop_ok:
  assumes swo: "strict_weak_order_on A lt" and sub: "set h \<subseteq> A" and ne: "h \<noteq> []"
    and ok: "heap_ok lt h" and pop: "heap_Pop lt h = Inr (x, h')"
  shows "heap_ok lt h'"
proof -
  define n where "n = length h - 1"
  define h1 where "h1 = Swap h 0 n"
  define h2 where "h2 = down lt h1 0 n"
  from ne have nl: "n < length h" and zl: "0 < length h" by (auto simp: n_def)
  then have l1: "length h1 = length h" and s1: "set h1 = set h" by (simp_all add: h1_def)
  from nl l1 have n1: "n \<le> length h1" by simp
  from down_props[OF this, of lt 0] have l2: "length h2 = length h"
    by (simp_all add: h2_def l1 s1)
  have h': "h' = take n h2"
    using pop heap_Pop_unfold[OF ne, of lt] by (simp add: h2_def h1_def n_def)
  have "down_inv lt h1 0 n"
    unfolding down_inv_def
  proof (intro conjI allI impI)
    fix c assume c: "c < n" "0 < c" "(c - 1) div 2 \<noteq> 0"
    then have "(c - 1) div 2 < n" by simp
    with c nl zl have "h1 ! c = h ! c" "h1 ! ((c - 1) div 2) = h ! ((c - 1) div 2)"
      using nth_Swap[of 0 h n c] nth_Swap[of 0 h n "(c - 1) div 2"] by (simp_all add: h1_def)
    with ok c nl show "\<not> lt (h1 ! c) (h1 ! ((c - 1) div 2))" by (simp add: heap_ok_def)
  qed simp
  from down_heap_ok[OF swo _ n1 this] sub s1
  have "heap_prefix_ok lt h2 n" by (simp add: h2_def)
  then show ?thesis
    unfolding h' heap_ok_def heap_prefix_ok_def using l2 nl by simp
qed

lemma heap_root_min:
  assumes swo: "strict_weak_order_on A lt" and sub: "set h \<subseteq> A" and ok: "heap_ok lt h"
  shows "k < length h \<Longrightarrow> \<not> lt (h ! k) (h ! 0)"
proof (induction k rule: less_induct)
  case (less k)
  have mem: "h ! c \<in> A" if "c < length h" for c using that sub by auto
  show ?case
  proof (cases "k = 0")
    case True
    with swo_asym[OF swo mem mem, of 0 0] less.prems show ?thesis by auto
  next
    case False
    then have p: "(k - 1) div 2 < k" by simp
    with less.prems have pl: "(k - 1) div 2 < length h" by simp
    have "\<not> lt (h ! k) (h ! ((k - 1) div 2))" using ok less.prems False by (simp add: heap_ok_def)
    moreover have "\<not> lt (h ! ((k - 1) div 2)) (h ! 0)" using less.IH[OF p pl] .
    moreover have "0 < length h" using less.prems by auto
    ultimately show ?thesis
      using swo_trans_ge[OF swo mem[OF less.prems] mem[OF pl] mem, of 0] by blast
  qed
qed

lemma mergeResults_props:
  assumes k: "1 \<le> k"
  shows "int (length h) \<le> k \<Longrightarrow>
    \<exists>h'. mergeResults ops k rs h = Inr h' \<and>
         length h' = min (nat k) (length h + length rs) \<and>
         set h' \<subseteq> set h \<union> set rs \<and>
         (strict_weak_order_on A (Less ops) \<longrightarrow> set h \<union> set rs \<subseteq> A \<longrightarrow>
            heap_ok (Less ops) h \<longrightarrow> heap_ok (Less ops) h')"
proof (induction rs arbitrary: h)
  case Nil
  then show ?case by auto
next
  case (Cons res rest)
  show ?case
  proof (cases "int (length h) < k")
    case True
    let ?h1 = "heap_Push (Less ops) h res"
    have l1: "length ?h1 = Suc (length h)" and s1: "set ?h1 = insert res (set h)"
      using heap_Push_props[of "Less ops" h res] by simp_all
    with True have "int (length ?h1) \<le> k" by simp
    from Cons.IH[OF this] obtain h' where h': "mergeResults ops k rest ?h1 = Inr h'"
      "length h' = min (nat k) (length ?h1 + length rest)"
      "set h' \<subseteq> set ?h1 \<union> set rest"
      "strict_weak_order_on A (Less ops) \<longrightarrow> set ?h1 \<union> set rest \<subseteq> A \<longrightarrow>
            heap_ok (Less ops) ?h1 \<longrightarrow> heap_ok (Less ops) h'"
      by blast
    have "heap_ok (Less ops) h'"
      if "strict_weak_order_on A (Less ops)" "set h \<union> set (res # rest) \<subseteq> A" "heap_ok (Less ops) h"
      using h'(4) that s1 heap_Push_ok[OF that(1) _ _ that(3), of res] by auto
    with h' True l1 s1 show ?thesis by auto
  next
    case False
    with Cons.prems have lk: "int (length h) = k" by simp
    with k have ne: "h \<noteq> []" by auto
    show ?thesis
    proof (cases "f_lt ops (Similarity (h ! 0)) (Similarity res)")
      case lt: True
      from heap_Pop_props[OF ne, of "Less ops"] obtain h0 where
        pop: "heap_Pop (Less ops) h = Inr (h ! 0, h0)" and l0: "length h0 = length h - 1"
        and s0: "set h = insert (h ! 0) (set h0)" by blast
      let ?h1 = "heap_Push (Less ops) h0 res"
      have l1: "length ?h1 = Suc (length h0)" and s1: "set ?h1 = insert res (set h0)"
        using heap_Push_props[of "Less ops" h0 res] by simp_all
      from l1 l0 ne have l1': "length ?h1 = length h" by (cases h) auto
      with Cons.prems have "int (length ?h1) \<le> k" by simp
      from Cons.IH[OF this] obtain h' where h': "mergeResults ops k rest ?h1 = Inr h'"
        "length h' = min (nat k) (length ?h1 + length rest)"
        "set h' \<subseteq> set ?h1 \<union> set rest"
        "strict_weak_order_on A (Less ops) \<longrightarrow> set ?h1 \<union> set rest \<subseteq> A \<longrightarrow>
            heap_ok (Less ops) ?h1 \<longrightarrow> heap_ok (Less ops) h'"
        by blast
      have "heap_ok (Less ops) h'"
        if a: "strict_weak_order_on A (Less ops)" "set h \<union> set (res # rest) \<subseteq> A" "heap_ok (Less ops) h"
      proof -
        from a(2) have hA: "set h \<subseteq> A" by simp
        have "heap_ok (Less ops) h0" using heap_Pop_ok[OF a(1) hA ne a(3) pop] .
        moreover have "set h0 \<subseteq> A" "res \<in> A" using a(2) s0 by auto
        ultimately have "heap_ok (Less ops) ?h1" using heap_Push_ok[OF a(1)] by blast
        with h'(4) a s1 s0 show ?thesis by auto
      qed
      moreover have "set ?h1 \<union> set rest \<subseteq> set h \<union> set (res # rest)" using s1 s0 by auto
      moreover have "mergeResults ops k (res # rest) h = Inr h'"
        using False ne lt pop h'(1) by simp
      moreover have "length h' = min (nat k) (length h + length (res # rest))"
        using h'(2) l1' lk by auto
      ultimately show ?thesis using h'(3) by blast
    next
      case nlt: False
      from Cons.IH[OF Cons.prems] obtain h' where h': "mergeResults ops k rest h = Inr h'"
        "length h' = min (nat k) (length h + length rest)"
        "set h' \<subseteq> set h \<union> set rest"
        "strict_weak_order_on A (Less ops) \<longrightarrow> set h \<union> set rest \<subseteq> A \<longrightarrow>
            heap_ok (Less ops) h \<longrightarrow> heap_ok (Less ops) h'"
        by blast
      have "mergeResults ops k (res # rest) h = Inr h'"
        using False ne nlt h'(1) by simp
      moreover have "length h' = min (nat k) (length h + length (res # rest))"
        using h'(2) lk by auto
      ultimately show ?thesis using h'(3,4) by auto
    qed
  qed
qed

lemma mergeResults_total:
  assumes k: "1 \<le> k"
  shows "\<exists>h'. mergeResults ops k rs h = Inr h'"
proof (induction rs arbitrary: h)
  case Nil
  then show ?case by simp
next
  case (Cons res rest)
  show ?case
  proof (cases "int (length h) < k")
    case True
    with Cons.IH[of "heap_Push (Less ops) h res"] show ?thesis by simp
  next
    case False
    with k have ne: "h \<noteq> []" by auto
    from heap_Pop_props[OF ne, of "Less ops"] obtain h0 where
      pop: "heap_Pop (Less ops) h = Inr (h ! 0, h0)" by blast
    with False ne Cons.IH[of h] Cons.IH[of "heap_Push (Less ops) h0 res"]
    show ?thesis by simp
  qed
qed

lemma mergeChannel_error:
  assumes k: "1 \<le> k"
  shows "\<exists>e. Inl e \<in> set chan \<Longrightarrow> \<exists>e. mergeChannel ops k chan h = Inl e \<and> Inl e \<in> set chan"
proof (induction chan arbitrary: h)
  case Nil
  then show ?case by simp
next
  case (Cons r chan)
  show ?case
  proof (cases r)
    case (Inl e)
    then show ?thesis by simp
  next
    case (Inr rs)
    from mergeResults_total[OF k, of ops rs h] obtain h' where "mergeResults ops k rs h = Inr h'"
      by blast
    moreover from Cons.prems Inr have "\<exists>e. Inl e \<in> set chan" by auto
    from Cons.IH[OF this, of h'] obtain e where "mergeChannel ops k chan h' = Inl e" "Inl e \<in> set chan"
      by blast
    ultimately show ?thesis using Inr by auto
  qed
qed

lemma mergeChannel_ok:
  assumes k: "1 \<le> k"
  shows "\<forall>r \<in> set chan. \<exists>rs. r = Inr rs \<Longrightarrow> int (length h) \<le> k \<Longrightarrow>
    \<exists>h'. mergeChannel ops k chan h = Inr h' \<and>
         length h' = min (nat k) (length h + length (candidates chan)) \<and>
         set h' \<subseteq> set h \<union> set (candidates chan) \<and>
         (strict_weak_order_on A (Less ops) \<longrightarrow> set h \<union> set (candidates chan) \<subseteq> A \<longrightarrow>
            heap_ok (Less ops) h \<longrightarrow> heap_ok (Less ops) h')"
proof (induction chan arbitrary: h)
  case Nil
  then show ?case by (auto simp: candidates_def)
next
  case (Cons r chan)
  from Cons.prems(1) obtain rs where r: "r = Inr rs" by auto
  from mergeResults_props[OF k Cons.prems(2), of ops rs A] obtain h1 where h1:
    "mergeResults ops k rs h = Inr h1" "length h1 = min (nat k) (length h + length rs)"
    "set h1 \<subseteq> set h \<union> set rs"
    "strict_weak_order_on A (Less ops) \<longrightarrow> set h \<union> set rs \<subseteq> A \<longrightarrow>
            heap_ok (Less ops) h \<longrightarrow> heap_ok (Less ops) h1"
    by blast
  from h1(2) k have "int (length h1) \<le> k" by auto
  with Cons.IH[of h1] Cons.prems(1) obtain h' where h':
    "mergeChannel ops k chan h1 = Inr h'"
    "length h' = min (nat k) (length h1 + length (candidates chan))"
    "set h' \<subseteq> set h1 \<union> set (candidates chan)"
    "strict_weak_order_on A (Less ops) \<longrightarrow> set h1 \<union> set (candidates chan) \<subseteq> A \<longrightarrow>
            heap_ok (Less ops) h1 \<longrightarrow> heap_ok (Less ops) h'"
    by auto
  have c: "candidates (r # chan) = rs @ candidates chan" by (simp add: candidates_def r)
  have "mergeChannel ops k (r # chan) h = Inr h'" using r h1(1) h'(1) by simp
  moreover have "length h' = min (nat k) (length h + length (candidates (r # chan)))"
    using h'(2) h1(2) c by (simp add: min_def)
  moreover have "set h' \<subseteq> set h \<union> set (candidates (r # chan))"
    using h'(3) h1(3) c by auto
  moreover have "heap_ok (Less ops) h'"
    if "strict_weak_order_on A (Less ops)" "set h \<union> set (candidates (r # chan)) \<subseteq> A"
       "heap_ok (Less ops) h"
    using that h1(3,4) h'(4) c by auto
  ultimately show ?case by blast
qed

lemma extractLoop_total:
  "length h = n \<Longrightarrow> \<exists>res. extractLoop lt n h results = Inr res \<and> length res = length results"
proof (induction n arbitrary: h results)
  case 0
  then show ?case by simp
next
  case (Suc n)
  then have ne: "h \<noteq> []" by auto
  from heap_Pop_props[OF ne, of lt] obtain h' where
    pop: "heap_Pop lt h = Inr (h ! 0, h')" and l: "length h' = length h - 1" by blast
  with Suc.prems have "length h' = n" by simp
  from Suc.IH[OF this, of "results[n := h ! 0]"] pop show ?case by simp
qed

lemma extractLoop_sorted:
  assumes swo: "strict_weak_order_on A lt"
  shows "length h = n \<Longrightarrow> set h \<subseteq> A \<Longrightarrow> heap_ok lt h \<Longrightarrow> n \<le> length results \<Longrightarrow>
    \<exists>res. extractLoop lt n h results = Inr res \<and> length res = length results \<and>
          (\<forall>i. n \<le> i \<longrightarrow> res ! i = results ! i) \<and>
          set (take n res) = set h \<and>
          sorted_wrt (\<lambda>a b. \<not> lt a b) (take n res)"
proof (induction n arbitrary: h results)
  case 0
  then show ?case by simp
next
  case (Suc n)
  then have ne: "h \<noteq> []" by auto
  from heap_Pop_props[OF ne, of lt] obtain h' where
    pop: "heap_Pop lt h = Inr (h ! 0, h')" and l: "length h' = length h - 1"
    and s: "set h = insert (h ! 0) (set h')" by blast
  from l Suc.prems have l': "length h' = n" by simp
  have ok': "heap_ok lt h'" using heap_Pop_ok[OF swo Suc.prems(2) ne Suc.prems(3) pop] .
  have sub': "set h' \<subseteq> A" using s Suc.prems(2) by auto
  from Suc.prems(4) have nl: "n \<le> length (results[n := h ! 0])" by simp
  from Suc.IH[OF l' sub' ok' nl] obtain res where res:
    "extractLoop lt n h' (results[n := h ! 0]) = Inr res" "length res = length results"
    "\<forall>i. n \<le> i \<longrightarrow> res ! i = results[n := h ! 0] ! i"
    "set (take n res) = set h'" "sorted_wrt (\<lambda>a b. \<not> lt a b) (take n res)"
    by auto
  from res(3) Suc.prems(4) have rn: "res ! n = h ! 0" by simp
  have t: "take (Suc n) res = take n res @ [h ! 0]"
    using rn res(2) Suc.prems(4) by (simp add: take_Suc_conv_app_nth)
  have min: "\<not> lt y (h ! 0)" if "y \<in> set h'" for y
  proof -
    from that s have "y \<in> set h" by auto
    then obtain k where "k < length h" "h ! k = y" by (auto simp: in_set_conv_nth)
    with heap_root_min[OF swo Suc.prems(2,3), of k] show ?thesis by simp
  qed
  have "extractLoop lt (Suc n) h results = Inr res" using pop res(1) by simp
  moreover have "\<forall>i. Suc n \<le> i \<longrightarrow> res ! i = results ! i" using res(3) by auto
  moreover have "set (take (Suc n) res) = set h" using t res(4) s by auto
  moreover have "sorted_wrt (\<lambda>a b. \<not> lt a b) (take (Suc n) res)"
    using t res(4,5) min by (auto simp: sorted_wrt_append)
  ultimately show ?case using res(2) by blast
qed

lemma DotProduct_cases:
  "DotProduct ops a b = Inl e \<longleftrightarrow> length a \<noteq> length b \<and> e = ErrDimensionMismatch"
  by (auto simp: DotProduct_def)

lemma scanShard_cases:
  "scanShard ops q m keys acc =
     (if \<exists>key \<in> set keys. \<exists>v. m key = Some v \<and> length v \<noteq> length q then Inl ErrDimensionMismatch
      else Inr (acc @ map (scanned ops q m) (filter (\<lambda>key. m key \<noteq> None) keys)))"
proof (induction keys arbitrary: acc)
  case Nil
  then show ?case by simp
next
  case (Cons key keys)
  show ?case
  proof (cases "m key")
    case None
    with Cons show ?thesis by simp
  next
    case (Some v)
    show ?thesis
    proof (cases "DotProduct ops q v")
      case (Inl e)
      with Some DotProduct_cases[of ops q v e] show ?thesis by auto
    next
      case (Inr x)
      then have "length v = length q" by (auto simp: DotProduct_def split: if_splits)
      with Some Inr Cons show ?thesis by (auto simp: scanned_def)
    qed
  qed
qed

lemma heap_Init_Nil [simp]: "heap_Init lt [] = []"
  by (simp add: heap_Init_def)

lemma heap_ok_Nil [simp]: "heap_ok lt []"
  by (simp add: heap_ok_def)

lemma foldl_add_sum_list:
  "foldl (\<lambda>count i. count + f i) a xs = a + sum_list (map f xs)" for a :: int
  by (induction xs arbitrary: a) simp_all

lemma Count_sum: "Count s = (\<Sum>i = 0..<ShardCount. int (card (dom (shards s ! i))))"
  by (simp add: Count_def foldl_add_sum_list sum_list_distinct_conv_sum_set)

lemma schedule_shard:
  assumes "valid_schedule s sched" "i < ShardCount"
  shows "\<exists>keys. (i, keys) \<in> set sched \<and> set keys = dom (shards s ! i)"
proof -
  from assms have "i \<in> set (map fst sched)" by (simp add: valid_schedule_def)
  then obtain keys where k: "(i, keys) \<in> set sched" by auto
  from assms(1) have "\<forall>x \<in> set sched. case x of (i, keys) \<Rightarrow> distinct keys \<and> set keys = dom (shards s ! i)"
    by (simp add: valid_schedule_def)
  from bspec[OF this k] k show ?thesis by auto
qed

lemma schedule_entry:
  assumes "valid_schedule s sched" "(i, keys) \<in> set sched"
  shows "i < ShardCount \<and> distinct keys \<and> set keys = dom (shards s ! i)"
proof -
  from assms(2) have "i \<in> set (map fst sched)" by force
  with assms(1) have i: "i < ShardCount" by (simp add: valid_schedule_def)
  from assms(1) have "\<forall>x \<in> set sched. case x of (i, keys) \<Rightarrow> distinct keys \<and> set keys = dom (shards s ! i)"
    by (simp add: valid_schedule_def)
  from bspec[OF this assms(2)] i show ?thesis by auto
qed

lemma Search_unfold:
  "Search ops s query k sched =
     (case Normalize ops query of
        Inl err \<Rightarrow> Inl (NormalizeQueryFailed err)
      | Inr nq \<Rightarrow>
          (case mergeChannel ops k (channel ops s nq sched) [] of
             Inl err \<Rightarrow> Inl err
           | Inr h' \<Rightarrow> extractLoop (Less ops) (length h') h'
               (replicate (length h') \<lparr>Key = [], Similarity = f_zero ops, Distance = f_zero ops\<rparr>)))"
  by (simp add: Search_def channel_def Let_def split: sum.splits)

lemma channel_errors: "Inl e \<in> set (channel ops s nq sched) \<Longrightarrow> e = ErrDimensionMismatch"
  by (auto simp: channel_def scanShard_cases split: if_splits)

lemma channel_mismatch:
  assumes "valid_schedule s sched" "v \<in> stored s" "length v \<noteq> length nq"
  shows "Inl ErrDimensionMismatch \<in> set (channel ops s nq sched)"
proof -
  from assms(2) obtain i key where i: "i < ShardCount" "(shards s ! i) key = Some v"
    by (auto simp: stored_def)
  from schedule_shard[OF assms(1) i(1)] obtain keys where
    keys: "(i, keys) \<in> set sched" "set keys = dom (shards s ! i)" by blast
  from i(2) keys(2) have "key \<in> set keys" by auto
  with i(2) assms(3) have "scanShard ops nq (shards s ! i) keys [] = Inl ErrDimensionMismatch"
    by (auto simp: scanShard_cases)
  with keys(1) show ?thesis by (force simp: channel_def)
qed

lemma channel_ok:
  assumes v: "valid_schedule s sched" and m: "\<forall>v \<in> stored s. length v = length nq"
  shows "(\<forall>r \<in> set (channel ops s nq sched). \<exists>rs. r = Inr rs) \<and>
         int (length (candidates (channel ops s nq sched))) = Count s \<and>
         Similarity ` set (candidates (channel ops s nq sched)) \<subseteq> similarities ops s nq"
proof -
  have entry: "scanShard ops nq (shards s ! i) keys [] = Inr (map (scanned ops nq (shards s ! i)) keys)"
    if "(i, keys) \<in> set sched" for i keys
  proof -
    from schedule_entry[OF v that] have i: "i < ShardCount" and k: "set keys = dom (shards s ! i)"
      by simp_all
    have "length w = length nq" if "(shards s ! i) key = Some w" for key w
      using m that i by (auto simp: stored_def)
    moreover have "filter (\<lambda>key. (shards s ! i) key \<noteq> None) keys = keys"
      using k by (auto intro!: filter_True)
    ultimately show ?thesis by (auto simp: scanShard_cases)
  qed
  then have ch: "channel ops s nq sched = map (\<lambda>(i, keys). Inr (map (scanned ops nq (shards s ! i)) keys)) sched"
    by (auto simp: channel_def)
  have 1: "\<forall>r \<in> set (channel ops s nq sched). \<exists>rs. r = Inr rs"
    unfolding ch by auto
  have cand: "candidates (channel ops s nq sched) =
      concat (map (\<lambda>(i, keys). map (scanned ops nq (shards s ! i)) keys) sched)"
    unfolding ch candidates_def by (simp add: comp_def case_prod_unfold)
  define idx where "idx = map fst sched"
  from v have idx: "distinct idx" "set idx = {0..<ShardCount}"
    by (simp_all add: idx_def valid_schedule_def)
  have "length (candidates (channel ops s nq sched)) =
      sum_list (map (\<lambda>(i, keys). length keys) sched)"
    unfolding cand by (simp add: length_concat comp_def case_prod_unfold)
  also have "map (\<lambda>(i, keys). length keys) sched = map (\<lambda>i. card (dom (shards s ! i))) idx"
  proof -
    have "length keys = card (dom (shards s ! i))" if "(i, keys) \<in> set sched" for i keys
      using schedule_entry[OF v that] distinct_card[of keys] by simp
    then show ?thesis by (auto simp: idx_def)
  qed
  also have "sum_list \<dots> = (\<Sum>i \<in> set idx. card (dom (shards s ! i)))"
    using idx(1) by (rule sum_list_distinct_conv_sum_set)
  also have "\<dots> = (\<Sum>i = 0..<ShardCount. card (dom (shards s ! i)))"
    by (simp only: idx(2))
  finally have 2: "int (length (candidates (channel ops s nq sched))) = Count s"
    by (simp add: Count_sum)
  have 3: "Similarity ` set (candidates (channel ops s nq sched)) \<subseteq> similarities ops s nq"
  proof
    fix x assume "x \<in> Similarity ` set (candidates (channel ops s nq sched))"
    then obtain i keys key where e: "(i, keys) \<in> set sched" "key \<in> set keys"
      "x = Similarity (scanned ops nq (shards s ! i) key)"
      unfolding cand by auto
    from schedule_entry[OF v e(1)] e(2) obtain w where
      w: "i < ShardCount" "(shards s ! i) key = Some w" by auto
    then have ws: "w \<in> stored s" by (auto simp: stored_def)
    with m have "length w = length nq" by simp
    then obtain y where y: "DotProduct ops nq w = Inr y" by (auto simp: DotProduct_def)
    with e(3) w(2) have "x = y" by (simp add: scanned_def)
    with y ws show "x \<in> similarities ops s nq" by (auto simp: similarities_def)
  qed
  from 1 2 3 show ?thesis by blast
qed

lemma swo_Less:
  "strict_weak_order_on S (f_lt ops) \<Longrightarrow> strict_weak_order_on {r. Similarity r \<in> S} (Less ops)"
  unfolding strict_weak_order_on_def Less_def by blast

lemma shards_New: "shards (New :: 'f Storage) = replicate ShardCount Map.empty"
  by (simp add: New_def map_replicate_const)

lemma tie_store_eq:
  "tie_store = \<lparr>shards = (replicate 32 Map.empty)[12 := [''a'' \<mapsto> [1, 0]], 5 := [''b'' \<mapsto> [1, 0]]], dim = 2\<rparr>"
  by (simp add: tie_store_def Set_unfold new_dim_def int32_def Normalize_10 getShard_a getShard_b shards_New ShardCount_def)
     (simp add: New_def)

lemma exact_ops_simps:
  "f_zero exact_ops = 0" "f_add exact_ops = (+)" "f_mul exact_ops = (*)" "f_div exact_ops = (/)"
  "f_sqrt exact_ops = sqrt" "f_eq exact_ops = (=)" "f_lt exact_ops = (<)"
  by (simp_all add: exact_ops_def)

lemma tie_valid: "valid_schedule tie_store tie_schedule"
proof -
  have idx: "map fst tie_schedule = [0..<ShardCount]"
    by (simp add: tie_schedule_def ShardCount_def upt_conv_Cons)
  have "\<forall>(i, keys) \<in> set tie_schedule. distinct keys \<and> set keys = dom (shards tie_store ! i)"
    unfolding tie_store_eq tie_schedule_def by simp
  then show ?thesis
    unfolding valid_schedule_def idx by simp
qed

lemma tie_channel:
  "channel exact_ops tie_store [1, 0] tie_schedule =
     [Inr [], Inr [], Inr [], Inr [], Inr [], Inr [\<lparr>Key = ''b'', Similarity = 1, Distance = 0\<rparr>], Inr [], Inr [], Inr [], Inr [], Inr [], Inr [], Inr [\<lparr>Key = ''a'', Similarity = 1, Distance = 0\<rparr>], Inr [], Inr [], Inr [], Inr [], Inr [], Inr [], Inr [], Inr [], Inr [], Inr [], Inr [], Inr [], Inr [], Inr [], Inr [], Inr [], Inr [], Inr [], Inr []]"
  unfolding channel_def tie_store_eq tie_schedule_def
  by (simp add: DotProduct_def exact_ops_simps)

lemma Less_exact: "Less exact_ops a b \<longleftrightarrow> Similarity a < Similarity b"
  by (simp add: Less_def exact_ops_simps)

lemma up_stop: "(j - 1) div 2 = j \<or> \<not> lt (h ! j) (h ! ((j - 1) div 2)) \<Longrightarrow> up lt h j = h"
  by (subst up_simps') simp

lemma up_step: "(j - 1) div 2 \<noteq> j \<Longrightarrow> lt (h ! j) (h ! ((j - 1) div 2)) \<Longrightarrow>
    up lt h j = up lt (Swap h ((j - 1) div 2) j) ((j - 1) div 2)"
  by (subst up_simps') simp

lemma down_stop: "2 * i + 1 \<ge> n \<or> \<not> lt (h ! min_child lt h i n) (h ! i) \<Longrightarrow> down lt h i n = h"
  by (subst down_unfold) simp

lemma down_step: "2 * i + 1 < n \<Longrightarrow> lt (h ! min_child lt h i n) (h ! i) \<Longrightarrow>
    down lt h i n = down lt (Swap h i (min_child lt h i n)) (min_child lt h i n) n"
  by (subst down_unfold) simp

lemmas heap_eval = heap_Push_def heap_Pop_unfold up_stop up_step down_stop down_step Swap_def
  min_child_def Less_exact

lemma tie_search:
  "Search exact_ops tie_store [1, 0] 2 tie_schedule =
     Inr [\<lparr>Key = ''a'', Similarity = 1, Distance = 0\<rparr>, \<lparr>Key = ''b'', Similarity = 1, Distance = 0\<rparr>]"
  unfolding Search_unfold
  by (simp add: Normalize_10 tie_channel heap_eval exact_ops_simps)

lemma Normalize_unfold:
  "Normalize ops v = (if f_eq ops (Magnitude ops v) (f_zero ops) then Inl ErrZeroVector
     else Inr (map (\<lambda>val. f_div ops val (Magnitude ops v)) v))"
  by (simp add: Normalize_def Let_def)

text \<open>
  Claim C10. With \<open>k \<ge> 1\<close> the merge loop never reads the root of an empty heap: from
  any heap, folding any results in returns a heap and no panic, since the branch that
  reads \<^verbatim>\<open>(*h)[0]\<close> is entered only when the heap holds at least \<open>k\<close> elements; and
  the whole of \<^verbatim>\<open>Search\<close>, with its pops in the merge and in the extraction loop,
  never panics. The precondition is needed: with \<open>k < 1\<close> the first candidate reads the
  root of the empty heap.
\<close>

theorem Search_root_in_bounds:
  assumes "1 \<le> k"
  shows "(\<forall>results h. \<exists>h'. mergeResults ops k results h = Inr h') \<and>
         Search ops s query k sched \<noteq> Inl PanicIndexOutOfRange \<and>
         (\<forall>k' res rest. k' < 1 \<longrightarrow> mergeResults ops k' (res # rest) [] = Inl PanicIndexOutOfRange)"
proof -
  have 1: "\<forall>results h. \<exists>h'. mergeResults ops k results h = Inr h'"
    using mergeResults_total[OF assms] by blast
  have 2: "Search ops s query k sched \<noteq> Inl PanicIndexOutOfRange"
  proof (cases "Normalize ops query")
    case (Inl e)
    then show ?thesis by (simp add: Search_unfold)
  next
    case (Inr nq)
    show ?thesis
    proof (cases "\<exists>e. Inl e \<in> set (channel ops s nq sched)")
      case True
      from mergeChannel_error[OF assms True, of ops "[]"] obtain e where
        e: "mergeChannel ops k (channel ops s nq sched) [] = Inl e" "Inl e \<in> set (channel ops s nq sched)"
        by blast
      from channel_errors[OF e(2)] e(1) Inr show ?thesis by (simp add: Search_unfold)
    next
      case False
      then have "\<forall>r \<in> set (channel ops s nq sched). \<exists>rs. r = Inr rs"
        by (metis sum.exhaust)
      from mergeChannel_ok[OF assms this, of "[]" ops UNIV] assms obtain h' where
        "mergeChannel ops k (channel ops s nq sched) [] = Inr h'" by auto
      moreover from extractLoop_total[of h' "length h'" "Less ops"] obtain res where
        "extractLoop (Less ops) (length h') h'
           (replicate (length h') \<lparr>Key = [], Similarity = f_zero ops, Distance = f_zero ops\<rparr>) = Inr res"
        by blast
      ultimately show ?thesis using Inr by (simp add: Search_unfold)
    qed
  qed
  have 3: "\<forall>k' res rest. k' < 1 \<longrightarrow> mergeResults ops k' (res # rest) [] = Inl PanicIndexOutOfRange"
    by simp
  from 1 2 3 show ?thesis by blast
qed

text \<open>
  Claim C4, amended. With \<open>k \<ge> 1\<close>, \<^verbatim>\<open>Search\<close> returns an error exactly when the
  query has zero magnitude or some stored vector has another length than the query: in
  the first case the zero-vector error of normalizing the query, in the second
  \<^verbatim>\<open>ErrDimensionMismatch\<close>, which \<^verbatim>\<open>DotProduct\<close> returns and the merge loop passes
  on. In every other case it returns a result sequence.
\<close>

theorem Search_failure_modes:
  assumes k: "1 \<le> k" and v: "valid_schedule s sched"
  shows "((\<exists>e. Search ops s query k sched = Inl e) \<longleftrightarrow>
            f_eq ops (Magnitude ops query) (f_zero ops) \<or> (\<exists>v \<in> stored s. length v \<noteq> length query)) \<and>
         (f_eq ops (Magnitude ops query) (f_zero ops) \<longrightarrow>
            Search ops s query k sched = Inl (NormalizeQueryFailed ErrZeroVector)) \<and>
         (\<not> f_eq ops (Magnitude ops query) (f_zero ops) \<and> (\<exists>v \<in> stored s. length v \<noteq> length query) \<longrightarrow>
            Search ops s query k sched = Inl ErrDimensionMismatch)"
proof (cases "f_eq ops (Magnitude ops query) (f_zero ops)")
  case True
  then have "Search ops s query k sched = Inl (NormalizeQueryFailed ErrZeroVector)"
    by (simp add: Search_unfold Normalize_unfold)
  with True show ?thesis by simp
next
  case False
  define nq where "nq = map (\<lambda>val. f_div ops val (Magnitude ops query)) query"
  from False have n: "Normalize ops query = Inr nq" by (simp add: Normalize_unfold nq_def)
  have ln: "length nq = length query" by (simp add: nq_def)
  show ?thesis
  proof (cases "\<exists>v \<in> stored s. length v \<noteq> length query")
    case True
    then obtain w where "w \<in> stored s" "length w \<noteq> length nq" using ln by auto
    from channel_mismatch[OF v this] have "\<exists>e. Inl e \<in> set (channel ops s nq sched)" by blast
    from mergeChannel_error[OF k this, of ops "[]"] obtain e where
      e: "mergeChannel ops k (channel ops s nq sched) [] = Inl e" "Inl e \<in> set (channel ops s nq sched)"
      by blast
    from channel_errors[OF e(2)] e(1) n have "Search ops s query k sched = Inl ErrDimensionMismatch"
      by (simp add: Search_unfold)
    with True False show ?thesis by simp
  next
    case nm: False
    then have "\<forall>v \<in> stored s. length v = length nq" using ln by simp
    from channel_ok[OF v this, of ops] have "\<forall>r \<in> set (channel ops s nq sched). \<exists>rs. r = Inr rs"
      by blast
    from mergeChannel_ok[OF k this, of "[]" ops UNIV] k obtain h' where
      "mergeChannel ops k (channel ops s nq sched) [] = Inr h'" by auto
    moreover from extractLoop_total[of h' "length h'" "Less ops"] obtain res where
      "extractLoop (Less ops) (length h') h'
         (replicate (length h') \<lparr>Key = [], Similarity = f_zero ops, Distance = f_zero ops\<rparr>) = Inr res"
      by blast
    ultimately have "Search ops s query k sched = Inr res" using n by (simp add: Search_unfold)
    with nm False show ?thesis by simp
  qed
qed

text \<open>
  Claim C2, amended. For a store that satisfies the dimension invariant, a query of the
  stored dimension that normalizes, \<open>k \<ge> 1\<close>, and similarities on which \<^verbatim>\<open><\<close> is a
  strict weak order (none is NaN), \<^verbatim>\<open>Search\<close> succeeds with exactly
  \<open>min k (Count s)\<close> results, in non-increasing order of similarity: no result is less
  similar than a later one. Equal similarities may follow each other.
\<close>

theorem Search_length_and_order:
  assumes v: "valid_schedule s sched" and k: "1 \<le> k" and n: "Normalize ops query = Inr nq"
    and inv: "dim_invariant s" and d0: "dim s \<noteq> 0" and dq: "int (length query) = dim s"
    and swo: "strict_weak_order_on (similarities ops s nq) (f_lt ops)"
  shows "\<exists>results. Search ops s query k sched = Inr results \<and>
           int (length results) = min k (Count s) \<and>
           sorted_wrt (\<lambda>a b. \<not> f_lt ops (Similarity a) (Similarity b)) results"
proof -
  from n have ln: "length nq = length query" by (rule Normalize_length)
  from inv d0 dq ln have m: "\<forall>v \<in> stored s. length v = length nq"
    by (auto simp: dim_invariant_def)
  define A where "A = {r :: 'a SearchResult. Similarity r \<in> similarities ops s nq}"
  have swoA: "strict_weak_order_on A (Less ops)" unfolding A_def using swo by (rule swo_Less)
  from channel_ok[OF v m, of ops] have ch:
    "\<forall>r \<in> set (channel ops s nq sched). \<exists>rs. r = Inr rs"
    "int (length (candidates (channel ops s nq sched))) = Count s"
    "set (candidates (channel ops s nq sched)) \<subseteq> A"
    by (auto simp: A_def)
  from mergeChannel_ok[OF k ch(1), of "[]" ops A] k swoA ch(3) obtain h' where h':
    "mergeChannel ops k (channel ops s nq sched) [] = Inr h'"
    "length h' = min (nat k) (length (candidates (channel ops s nq sched)))"
    "set h' \<subseteq> A" "heap_ok (Less ops) h'"
    by auto
  from extractLoop_sorted[OF swoA refl h'(3,4), of "replicate (length h')
      \<lparr>Key = [], Similarity = f_zero ops, Distance = f_zero ops\<rparr>"]
  obtain res where res: "extractLoop (Less ops) (length h') h'
      (replicate (length h') \<lparr>Key = [], Similarity = f_zero ops, Distance = f_zero ops\<rparr>) = Inr res"
    "length res = length h'" "sorted_wrt (\<lambda>a b. \<not> Less ops a b) (take (length h') res)"
    by auto
  have "Search ops s query k sched = Inr res" using n h'(1) res(1) by (simp add: Search_unfold)
  moreover have "int (length res) = min k (Count s)"
  proof -
    have "int (min (nat k) c) = min k (int c)" for c using k by (auto simp: min_def)
    with res(2) h'(2) ch(2) show ?thesis by simp
  qed
  moreover have "sorted_wrt (\<lambda>a b. \<not> f_lt ops (Similarity a) (Similarity b)) res"
    using res(2,3) by (simp add: Less_def)
  ultimately show ?thesis by blast
qed

lemma Normalize_01: "Normalize exact_ops [0, 1] = Inr [0, 1]"
  by (simp add: Normalize_def Magnitude_def exact_ops_def)

lemma Normalize_1: "Normalize exact_ops [1] = Inr [1]"
  by (simp add: Normalize_def Magnitude_def exact_ops_def)

lemma pair_store_eq:
  "pair_store = \<lparr>shards = (replicate 32 Map.empty)[12 := [''a'' \<mapsto> [1, 0]], 5 := [''b'' \<mapsto> [0, 1]]], dim = 2\<rparr>"
  by (simp add: pair_store_def Set_unfold new_dim_def int32_def Normalize_10 Normalize_01 getShard_a getShard_b shards_New ShardCount_def)
     (simp add: New_def)

lemma pair_valid: "valid_schedule pair_store tie_schedule"
proof -
  have idx: "map fst tie_schedule = [0..<ShardCount]"
    by (simp add: tie_schedule_def ShardCount_def upt_conv_Cons)
  have "\<forall>(i, keys) \<in> set tie_schedule. distinct keys \<and> set keys = dom (shards pair_store ! i)"
    unfolding pair_store_eq tie_schedule_def by simp
  then show ?thesis
    unfolding valid_schedule_def idx by simp
qed

lemma pair_channel:
  "channel exact_ops pair_store [1, 0] tie_schedule =
     [Inr [], Inr [], Inr [], Inr [], Inr [], Inr [\<lparr>Key = ''b'', Similarity = 0, Distance = 0\<rparr>], Inr [], Inr [], Inr [], Inr [], Inr [], Inr [], Inr [\<lparr>Key = ''a'', Similarity = 1, Distance = 0\<rparr>], Inr [], Inr [], Inr [], Inr [], Inr [], Inr [], Inr [], Inr [], Inr [], Inr [], Inr [], Inr [], Inr [], Inr [], Inr [], Inr [], Inr [], Inr [], Inr []]"
  unfolding channel_def pair_store_eq tie_schedule_def
  by (simp add: DotProduct_def exact_ops_simps)

lemma pair_search:
  "Search exact_ops pair_store [1, 0] 1 tie_schedule = Inr [\<lparr>Key = ''a'', Similarity = 1, Distance = 0\<rparr>]"
  unfolding Search_unfold
  by (simp add: Normalize_10 pair_channel heap_eval exact_ops_simps)

lemma tie_channel_short:
  "channel exact_ops tie_store [1] tie_schedule =
     [Inr [], Inr [], Inr [], Inr [], Inr [], Inl ErrDimensionMismatch, Inr [], Inr [], Inr [], Inr [], Inr [], Inr [], Inl ErrDimensionMismatch, Inr [], Inr [], Inr [], Inr [], Inr [], Inr [], Inr [], Inr [], Inr [], Inr [], Inr [], Inr [], Inr [], Inr [], Inr [], Inr [], Inr [], Inr [], Inr []]"
  unfolding channel_def tie_store_eq tie_schedule_def
  by (simp add: DotProduct_def exact_ops_simps)

lemma tie_search_short:
  "Search exact_ops tie_store [1] 1 tie_schedule = Inl ErrDimensionMismatch"
  unfolding Search_unfold
  by (simp add: Normalize_1 tie_channel_short heap_eval exact_ops_simps)

lemma tie_search_k0:
  "Search exact_ops tie_store [1, 0] 0 tie_schedule = Inl PanicIndexOutOfRange"
  unfolding Search_unfold
  by (simp add: Normalize_10 tie_channel heap_eval exact_ops_simps)

lemma swo_exact: "strict_weak_order_on S (f_lt exact_ops)"
  by (auto simp: strict_weak_order_on_def exact_ops_simps)

lemma store_invariant_Set2:
  "store_invariant (snd (Set exact_ops (snd (Set exact_ops New k1 v1)) k2 v2))"
proof -
  have z: "Normalize exact_ops [] = Inl ErrZeroVector"
    by (rule Normalize_Nil) (rule exact_sqrt_zero)
  have "store_invariant (New :: real Storage)" by (simp add: store_invariant_def stored_New)
  from Set_store_invariant[OF z Set_store_invariant[OF z this]] show ?thesis .
qed

lemma Count_pair: "Count pair_store = 2"
proof -
  have "store_invariant pair_store"
    unfolding pair_store_def by (rule store_invariant_Set2)
  moreover have "dim pair_store = 2" by (simp add: pair_store_eq)
  ultimately have "\<forall>v \<in> stored pair_store. length v = length [1, 0 :: real]"
    by (auto simp: store_invariant_def)
  from channel_ok[OF pair_valid this, of exact_ops] show ?thesis
    by (simp add: pair_channel candidates_def)
qed

lemma Count_tie: "Count tie_store = 2"
proof -
  have "store_invariant tie_store"
    unfolding tie_store_def by (rule store_invariant_Set2)
  moreover have "dim tie_store = 2" by (simp add: tie_store_eq)
  ultimately have "\<forall>v \<in> stored tie_store. length v = length [1, 0 :: real]"
    by (auto simp: store_invariant_def)
  from channel_ok[OF tie_valid this, of exact_ops] show ?thesis
    by (simp add: tie_channel candidates_def)
qed

text \<open>The hypotheses of C2 hold for the store of two orthogonal vectors, the query
  \<open>[1, 0]\<close> and \<open>k = 1\<close>; the search returns the key \<^verbatim>\<open>a\<close> alone.\<close>

theorem Search_length_and_order_witness:
  "valid_schedule pair_store tie_schedule \<and> (1::int) \<le> 1 \<and>
   Normalize exact_ops [1, 0] = Inr [1, 0] \<and>
   dim_invariant pair_store \<and> dim pair_store \<noteq> 0 \<and> int (length [1, 0 :: real]) = dim pair_store \<and>
   strict_weak_order_on (similarities exact_ops pair_store [1, 0]) (f_lt exact_ops) \<and>
   Count pair_store = 2 \<and>
   (\<exists>results. Search exact_ops pair_store [1, 0] 1 tie_schedule = Inr results \<and>
      int (length results) = min 1 (Count pair_store) \<and>
      sorted_wrt (\<lambda>a b. \<not> f_lt exact_ops (Similarity a) (Similarity b)) results) \<and>
   Search exact_ops pair_store [1, 0] 1 tie_schedule = Inr [\<lparr>Key = ''a'', Similarity = 1, Distance = 0\<rparr>]"
proof -
  have inv: "dim_invariant pair_store"
    unfolding pair_store_def by (rule store_invariant_dim_invariant) (rule store_invariant_Set2)
  have d: "dim pair_store = 2" by (simp add: pair_store_eq)
  have d0: "dim pair_store \<noteq> 0" and dq: "int (length [1, 0 :: real]) = dim pair_store"
    by (simp_all add: d)
  have k: "(1::int) \<le> 1" by simp
  from Search_length_and_order[OF pair_valid k Normalize_10 inv d0 dq swo_exact]
    pair_valid Normalize_10 inv d0 dq swo_exact[of "similarities exact_ops pair_store [1, 0]"]
    Count_pair pair_search
  show ?thesis by simp
qed

text \<open>
  Claim C2 as stated fails on ties: with the same vector stored under two keys, the two
  results have the same similarity, so the second is not strictly less than the first.
\<close>

theorem Search_ties_not_strictly_descending:
  "valid_schedule tie_store tie_schedule \<and>
   Normalize exact_ops [1, 0] = Inr [1, 0] \<and>
   dim tie_store = 2 \<and> Count tie_store = 2 \<and>
   Search exact_ops tie_store [1, 0] 2 tie_schedule = Inr [\<lparr>Key = ''a'', Similarity = 1, Distance = 0\<rparr>, \<lparr>Key = ''b'', Similarity = 1, Distance = 0\<rparr>] \<and>
   \<not> f_lt exact_ops (Similarity \<lparr>Key = ''b'', Similarity = 1, Distance = 0\<rparr>) (Similarity \<lparr>Key = ''a'', Similarity = 1, Distance = 0\<rparr>)"
  using tie_valid Normalize_10 Count_tie tie_search
  by (simp add: tie_store_eq exact_ops_simps)

lemma nan_ops_simps:
  "f_zero nan_ops = Some 0"
  "f_add nan_ops (Some a) (Some b) = Some (a + b)" "f_add nan_ops None y = None" "f_add nan_ops x None = None"
  "f_mul nan_ops (Some a) (Some b) = Some (a * b)" "f_mul nan_ops None y = None" "f_mul nan_ops x None = None"
  "f_div nan_ops (Some a) (Some b) = (if b = 0 then None else Some (a / b))"
  "f_div nan_ops None y = None" "f_div nan_ops x None = None"
  "f_sqrt nan_ops (Some a) = (if a < 0 then None else Some (sqrt a))" "f_sqrt nan_ops None = None"
  "f_eq nan_ops (Some a) (Some b) \<longleftrightarrow> a = b" "\<not> f_eq nan_ops None y" "\<not> f_eq nan_ops x None"
  "f_lt nan_ops (Some a) (Some b) \<longleftrightarrow> a < b" "\<not> f_lt nan_ops None y" "\<not> f_lt nan_ops x None"
  by (simp_all add: nan_ops_def split: option.splits)

lemma nan_Normalize:
  "Normalize nan_ops [Some 0, Some 1] = Inr [Some 0, Some 1]"
  "Normalize nan_ops [None, Some 1] = Inr [None, None]"
  "Normalize nan_ops [Some 1, Some 0] = Inr [Some 1, Some 0]"
  "Normalize nan_ops [Some (- 1), Some 0] = Inr [Some (- 1), Some 0]"
  by (simp_all add: Normalize_def Magnitude_def nan_ops_simps)

lemma Set_store:
  assumes "Normalize ops vs = Inr n" and "dim s = 0 \<or> dim s = int (length vs)"
    and "int (length vs) < 2 ^ 31"
  shows "snd (Set ops s key vs) =
    s\<lparr>dim := int (length vs), shards := (shards s)[getShard key := (shards s ! getShard key)(key \<mapsto> n)]\<rparr>"
proof -
  from assms(3) have "int32 (int (length vs)) = int (length vs)" by (simp add: int32_def)
  with assms(1,2) show ?thesis by (auto simp: Set_unfold new_dim_def)
qed

lemma nan_store_eq:
  "nan_store = \<lparr>shards = (replicate 32 Map.empty)
      [1 := [''k1'' \<mapsto> [Some 0, Some 1]], 5 := [''b'' \<mapsto> [None, None]],
       8 := [''k2'' \<mapsto> [Some 1, Some 0]], 12 := [''a'' \<mapsto> [Some (- 1), Some 0]]], dim = 2\<rparr>"
proof -
  define s1 where "s1 = snd (Set nan_ops New ''k1'' [Some 0, Some 1])"
  define s2 where "s2 = snd (Set nan_ops s1 ''b'' [None, Some 1])"
  define s3 where "s3 = snd (Set nan_ops s2 ''k2'' [Some 1, Some 0])"
  have 1: "s1 = \<lparr>shards = (replicate 32 Map.empty)[1 := [''k1'' \<mapsto> [Some 0, Some 1]]], dim = 2\<rparr>"
    unfolding s1_def by (subst Set_store[OF nan_Normalize(1)])
      (simp_all add: getShard_k1 shards_New ShardCount_def, simp add: New_def)
  have 2: "s2 = \<lparr>shards = (replicate 32 Map.empty)[1 := [''k1'' \<mapsto> [Some 0, Some 1]],
      5 := [''b'' \<mapsto> [None, None]]], dim = 2\<rparr>"
    unfolding s2_def by (subst Set_store[OF nan_Normalize(2)]) (simp_all add: 1 getShard_b)
  have 3: "s3 = \<lparr>shards = (replicate 32 Map.empty)[1 := [''k1'' \<mapsto> [Some 0, Some 1]],
      5 := [''b'' \<mapsto> [None, None]], 8 := [''k2'' \<mapsto> [Some 1, Some 0]]], dim = 2\<rparr>"
    unfolding s3_def by (subst Set_store[OF nan_Normalize(3)]) (simp_all add: 2 getShard_k2)
  have "nan_store = snd (Set nan_ops s3 ''a'' [Some (- 1), Some 0])"
    by (simp add: nan_store_def run_def s1_def s2_def s3_def)
  also have "\<dots> = \<lparr>shards = (replicate 32 Map.empty)
      [1 := [''k1'' \<mapsto> [Some 0, Some 1]], 5 := [''b'' \<mapsto> [None, None]],
       8 := [''k2'' \<mapsto> [Some 1, Some 0]], 12 := [''a'' \<mapsto> [Some (- 1), Some 0]]], dim = 2\<rparr>"
    by (subst Set_store[OF nan_Normalize(4)]) (simp_all add: 3 getShard_a)
  finally show ?thesis .
qed

lemma nan_valid: "valid_schedule nan_store  nan_schedule"
proof -
  have idx: "map fst  nan_schedule = [0..<ShardCount]"
    by (simp add: nan_schedule_def ShardCount_def upt_conv_Cons)
  have "\<forall>(i, keys) \<in> set  nan_schedule. distinct keys \<and> set keys = dom (shards nan_store ! i)"
    unfolding nan_store_eq nan_schedule_def by simp
  then show ?thesis
    unfolding valid_schedule_def idx by simp
qed

lemma nan_channel:
  "channel nan_ops nan_store [Some 1, Some 0]  nan_schedule =
     [Inr [], Inr [\<lparr>Key = ''k1'', Similarity = Some 0, Distance = Some 0\<rparr>], Inr [], Inr [], Inr [], Inr [\<lparr>Key = ''b'', Similarity = None, Distance = Some 0\<rparr>], Inr [], Inr [], Inr [\<lparr>Key = ''k2'', Similarity = Some 1, Distance = Some 0\<rparr>], Inr [], Inr [], Inr [], Inr [\<lparr>Key = ''a'', Similarity = Some (- 1), Distance = Some 0\<rparr>], Inr [], Inr [], Inr [], Inr [], Inr [], Inr [], Inr [], Inr [], Inr [], Inr [], Inr [], Inr [], Inr [], Inr [], Inr [], Inr [], Inr [], Inr [], Inr []]"
  unfolding channel_def nan_store_eq nan_schedule_def
  by (simp add: DotProduct_def nan_ops_simps)

lemma Less_nan:
  "Less nan_ops a b \<longleftrightarrow> f_lt nan_ops (Similarity a) (Similarity b)"
  by (simp add: Less_def)

text \<open>
  The hypothesis on the comparison cannot be dropped: with a NaN among the similarities
  the heap order is lost, and a search returns the similarity \<open>-1\<close> before the
  similarity \<open>0\<close>.
\<close>

lemma Search_not_sorted_with_NaN:
  "valid_schedule nan_store  nan_schedule \<and>
   Search nan_ops nan_store [Some 1, Some 0] 4  nan_schedule =
     Inr [\<lparr>Key = ''b'', Similarity = None, Distance = Some 0\<rparr>, \<lparr>Key = ''k2'', Similarity = Some 1, Distance = Some 0\<rparr>, \<lparr>Key = ''a'', Similarity = Some (- 1), Distance = Some 0\<rparr>, \<lparr>Key = ''k1'', Similarity = Some 0, Distance = Some 0\<rparr>] \<and>
   f_lt nan_ops (Similarity \<lparr>Key = ''a'', Similarity = Some (- 1), Distance = Some 0\<rparr>) (Similarity \<lparr>Key = ''k1'', Similarity = Some 0, Distance = Some 0\<rparr>)"
proof -
  have "Search nan_ops nan_store [Some 1, Some 0] 4  nan_schedule =
     Inr [\<lparr>Key = ''b'', Similarity = None, Distance = Some 0\<rparr>, \<lparr>Key = ''k2'', Similarity = Some 1, Distance = Some 0\<rparr>, \<lparr>Key = ''a'', Similarity = Some (- 1), Distance = Some 0\<rparr>, \<lparr>Key = ''k1'', Similarity = Some 0, Distance = Some 0\<rparr>]"
    unfolding Search_unfold
    by (simp add: nan_Normalize nan_channel heap_Push_def heap_Pop_unfold up_stop up_step
          down_stop down_step Swap_def min_child_def Less_nan nan_ops_simps)
  with nan_valid show ?thesis by (simp add: nan_ops_simps)
qed

text \<open>The amended C4 at a query of the stored length, which succeeds, and at the zero
  query.\<close>

theorem Search_failure_modes_witness:
  "(1::int) \<le> 2 \<and> valid_schedule tie_store tie_schedule \<and>
   \<not> f_eq exact_ops (Magnitude exact_ops [1, 0]) (f_zero exact_ops) \<and>
   \<not> (\<exists>v \<in> stored tie_store. length v \<noteq> length [1, 0 :: real]) \<and>
   \<not> (\<exists>e. Search exact_ops tie_store [1, 0] 2 tie_schedule = Inl e) \<and>
   f_eq exact_ops (Magnitude exact_ops [0, 0]) (f_zero exact_ops) \<and>
   Search exact_ops tie_store [0, 0] 2 tie_schedule = Inl (NormalizeQueryFailed ErrZeroVector)"
proof -
  have k: "(1::int) \<le> 2" by simp
  have nz: "\<not> f_eq exact_ops (Magnitude exact_ops [1, 0]) (f_zero exact_ops)"
    and z: "f_eq exact_ops (Magnitude exact_ops [0, 0]) (f_zero exact_ops)"
    by (simp_all add: Magnitude_def exact_ops_simps)
  have "store_invariant tie_store"
    unfolding tie_store_def by (rule store_invariant_Set2)
  moreover have "dim tie_store = 2" by (simp add: tie_store_eq)
  ultimately have nm: "\<not> (\<exists>v \<in> stored tie_store. length v \<noteq> length [1, 0 :: real])"
    by (auto simp: store_invariant_def)
  from Search_failure_modes[OF k tie_valid, of exact_ops "[1, 0]"]
    Search_failure_modes[OF k tie_valid, of exact_ops "[0, 0]"] k tie_valid nz z nm
  show ?thesis by simp
qed

text \<open>
  Claim C4 as stated fails: a non-zero query of length 1 against stored vectors of
  length 2 is answered with \<^verbatim>\<open>ErrDimensionMismatch\<close>, not with results.
\<close>

theorem Search_rejects_other_length:
  "(1::int) \<le> 1 \<and> valid_schedule tie_store tie_schedule \<and>
   \<not> f_eq exact_ops (Magnitude exact_ops [1]) (f_zero exact_ops) \<and>
   Search exact_ops tie_store [1] 1 tie_schedule = Inl ErrDimensionMismatch"
  using tie_valid tie_search_short by (simp add: Magnitude_def exact_ops_simps)

text \<open>C10 at \<open>k = 1\<close>, and the panic at \<open>k = 0\<close>.\<close>

theorem Search_root_in_bounds_witness:
  "(1::int) \<le> 1 \<and>
   (\<exists>h'. mergeResults exact_ops 1 [\<lparr>Key = ''a'', Similarity = 1, Distance = 0\<rparr>, \<lparr>Key = ''b'', Similarity = 1, Distance = 0\<rparr>] [] = Inr h') \<and>
   Search exact_ops tie_store [1, 0] 1 tie_schedule \<noteq> Inl PanicIndexOutOfRange \<and>
   mergeResults exact_ops 0 [\<lparr>Key = ''a'', Similarity = 1, Distance = 0\<rparr>, \<lparr>Key = ''b'', Similarity = 1, Distance = 0\<rparr>] [] = Inl PanicIndexOutOfRange \<and>
   Search exact_ops tie_store [1, 0] 0 tie_schedule = Inl PanicIndexOutOfRange"
proof -
  have k: "(1::int) \<le> 1" by simp
  note t = Search_root_in_bounds[OF k, of exact_ops tie_store "[1, 0]" tie_schedule]
  from t have 1: "\<exists>h'. mergeResults exact_ops 1 [\<lparr>Key = ''a'', Similarity = 1, Distance = 0\<rparr>, \<lparr>Key = ''b'', Similarity = 1, Distance = 0\<rparr>] [] = Inr h'"
    by blast
  from t have 2: "Search exact_ops tie_store [1, 0] 1 tie_schedule \<noteq> Inl PanicIndexOutOfRange"
    by blast
  have 3: "mergeResults exact_ops 0 [\<lparr>Key = ''a'', Similarity = 1, Distance = 0\<rparr>, \<lparr>Key = ''b'', Similarity = 1, Distance = 0\<rparr>] [] = Inl PanicIndexOutOfRange"
    by simp
  from k 1 2 3 tie_search_k0 show ?thesis by blast
qed

section \<open>Properties of the codec\<close>

lemma ReadString_line:
  "LF \<notin> set line \<Longrightarrow> ReadString (line @ LF # rest) = Inr (line @ [LF], rest)"
proof -
  assume a: "LF \<notin> set line"
  then have "dropWhile (\<lambda>c. c \<noteq> LF) (line @ LF # rest) = LF # rest"
    by (induction line) auto
  moreover from a have "takeWhile (\<lambda>c. c \<noteq> LF) (line @ LF # rest) = line"
    by (induction line) auto
  ultimately show ?thesis by (simp add: ReadString_def)
qed

lemma readLine_line:
  assumes "LF \<notin> set line"
  shows "readLine (line @ [CR, LF] @ rest) = Inr (line, rest)"
proof -
  from assms have "LF \<notin> set (line @ [CR])" by simp
  from ReadString_line[OF this, of rest]
  have "ReadString (line @ [CR, LF] @ rest) = Inr (line @ [CR, LF], rest)" by simp
  then show ?thesis by (simp add: readLine_def nth_append)
qed

lemma isDigit_digit: "d < 10 \<Longrightarrow> isDigit (char_of (48 + d :: nat))"
  by (simp add: isDigit_def)

lemma parseDigits_snoc:
  "parseDigits a (xs @ [c]) =
     (case parseDigits a xs of None \<Rightarrow> None
      | Some m \<Rightarrow> if isDigit c then Some (m * 10 + (of_char c - 48)) else None)"
  by (induction xs arbitrary: a) auto

declare formatDigits.simps [simp del]

lemma parseDigits_formatDigits: "parseDigits 0 (formatDigits n) = Some n"
proof (induction n rule: formatDigits.induct)
  case (1 n)
  show ?case
  proof (cases "n < 10")
    case True
    then show ?thesis
      by (subst formatDigits.simps) (simp add: isDigit_digit)
  next
    case False
    have d: "n mod 10 < 10" by simp
    from False 1 have "parseDigits 0 (formatDigits (n div 10)) = Some (n div 10)" by simp
    with False show ?thesis
      by (subst formatDigits.simps) (simp add: parseDigits_snoc isDigit_digit[OF d])
  qed
qed

lemma formatDigits_digits: "c \<in> set (formatDigits n) \<Longrightarrow> isDigit c"
proof (induction n rule: formatDigits.induct)
  case (1 n)
  show ?case
  proof (cases "n < 10")
    case True
    with "1.prems" show ?thesis
      by (subst (asm) formatDigits.simps) (auto simp: isDigit_digit)
  next
    case False
    have d: "n mod 10 < 10" by simp
    from False "1.prems" have "c \<in> set (formatDigits (n div 10)) \<or> c = char_of (48 + n mod 10)"
      by (subst (asm) formatDigits.simps) auto
    with False 1 isDigit_digit[OF d] show ?thesis by auto
  qed
qed

lemma formatDigits_nonempty: "formatDigits n \<noteq> []"
  by (subst formatDigits.simps) simp

lemma Atoi_Itoa:
  assumes "0 \<le> n" "n < 2 ^ 63"
  shows "Atoi (Itoa n) = Some n"
proof -
  obtain c cs where f: "formatDigits (nat n) = c # cs"
    using formatDigits_nonempty[of "nat n"] by (cases "formatDigits (nat n)") auto
  then have "isDigit c" using formatDigits_digits[of c "nat n"] by simp
  then have c: "c \<noteq> CHR ''-''" "c \<noteq> CHR ''+''" by (auto simp: isDigit_def)
  from parseDigits_formatDigits[of "nat n"] f have "parseDigits 0 (c # cs) = Some (nat n)" by simp
  with assms c f show ?thesis by (simp add: Atoi_def Itoa_def del: parseDigits.simps)
qed

lemma LF_notin_Itoa: "0 \<le> n \<Longrightarrow> LF \<notin> set (Itoa n)"
  using formatDigits_digits[of LF "nat n"] by (auto simp: Itoa_def isDigit_def)

lemma parseDigits_all_digits: "parseDigits a s = Some m \<Longrightarrow> \<forall>c \<in> set s. isDigit c"
  by (induction s arbitrary: a) (auto split: if_splits)

lemma Atoi_no_LF: "Atoi s = Some n \<Longrightarrow> LF \<notin> set s"
proof -
  assume a: "Atoi s = Some n"
  then obtain s0 rest where s: "s = s0 # rest" by (cases s) (auto simp: Atoi_def)
  define ds where "ds = (if s0 = CHR ''-'' \<or> s0 = CHR ''+'' then rest else s)"
  from a s obtain m where "parseDigits 0 ds = Some m"
    by (auto simp: Atoi_def Let_def ds_def split: if_splits option.splits)
  from parseDigits_all_digits[OF this] have "LF \<notin> set ds" by (auto simp: isDigit_def)
  then show ?thesis by (auto simp: ds_def s split: if_splits)
qed

lemma readBulkString_bulk:
  assumes a: "Atoi line = Some (int (length bulk))" and b: "int (length bulk) + 2 < 2 ^ 63"
  shows "readBulkString (line @ [CR, LF] @ bulk @ [CR, LF] @ rest) = Inr (bulk, rest)"
proof -
  from Atoi_no_LF[OF a] have "readLine (line @ [CR, LF] @ bulk @ [CR, LF] @ rest)
      = Inr (line, bulk @ [CR, LF] @ rest)"
    using readLine_line[of line "bulk @ [CR, LF] @ rest"] by simp
  moreover have "take (length bulk + 2) (bulk @ [CR, LF] @ rest) = bulk @ [CR, LF]" by simp
  ultimately show ?thesis
    using a b by (simp add: readBulkString_def Let_def nth_append)
qed

lemma readBulkString_null:
  assumes a: "Atoi line = Some (- 1)"
  shows "readBulkString (line @ [CR, LF] @ rest) = Inr ([], rest)"
  using readLine_line[OF Atoi_no_LF[OF a], of rest] a by (simp add: readBulkString_def)

lemma Atoi_minus_one: "Atoi ''-1'' = Some (- 1)"
  by (simp add: Atoi_def isDigit_def)

text \<open>
  Claim C9, amended. For a line without a line feed, \<^verbatim>\<open>ReadCommand\<close> decodes a bare
  simple-string frame and a bare integer frame to the one-element command holding the
  line; a bare bulk-string frame, whose length line \<^verbatim>\<open>strconv.Atoi\<close> reads as the
  number of bytes that follow, to the one-element command holding those bytes; the null
  bulk string to the one-element command holding the empty string; and it leaves the rest
  of the stream unread. A bare error frame is not decoded to a command: \<^verbatim>\<open>ReadCommand\<close>
  fails with an error whose text is the line.
\<close>

theorem ReadCommand_bare_scalar:
  assumes "LF \<notin> set line"
  shows "ReadCommand (CHR ''+'' # line @ [CR, LF] @ rest) = Inr ([line], rest) \<and>
         ReadCommand (CHR '':'' # line @ [CR, LF] @ rest) = Inr ([line], rest) \<and>
         (Atoi line = Some (int (length bulk)) \<and> int (length bulk) + 2 < 2 ^ 63 \<longrightarrow>
            ReadCommand (CHR ''$'' # line @ [CR, LF] @ bulk @ [CR, LF] @ rest) = Inr ([bulk], rest)) \<and>
         (Atoi line = Some (- 1) \<longrightarrow>
            ReadCommand (CHR ''$'' # line @ [CR, LF] @ rest) = Inr ([[]], rest)) \<and>
         ReadCommand (CHR ''-'' # line @ [CR, LF] @ rest) = Inl (ErrorFrame line)"
proof -
  note l = readLine_line[OF assms, of rest]
  have 1: "ReadCommand (CHR ''+'' # line @ [CR, LF] @ rest) = Inr ([line], rest)"
    using l by (simp add: ReadCommand_def readValue_def)
  have 2: "ReadCommand (CHR '':'' # line @ [CR, LF] @ rest) = Inr ([line], rest)"
    using l by (simp add: ReadCommand_def readValue_def)
  have 3: "ReadCommand (CHR ''$'' # line @ [CR, LF] @ bulk @ [CR, LF] @ rest) = Inr ([bulk], rest)"
    if "Atoi line = Some (int (length bulk))" "int (length bulk) + 2 < 2 ^ 63"
    using readBulkString_bulk[OF that, of rest] by (simp add: ReadCommand_def readValue_def)
  have 4: "ReadCommand (CHR ''$'' # line @ [CR, LF] @ rest) = Inr ([[]], rest)"
    if "Atoi line = Some (- 1)"
    using readBulkString_null[OF that, of rest] by (simp add: ReadCommand_def readValue_def)
  have 5: "ReadCommand (CHR ''-'' # line @ [CR, LF] @ rest) = Inl (ErrorFrame line)"
    using l by (simp add: ReadCommand_def readValue_def)
  from 1 2 3 4 5 show ?thesis by blast
qed

lemma Atoi_5: "Atoi ''5'' = Some 5"
  by (simp add: Atoi_def isDigit_def)

text \<open>The frames \<^verbatim>\<open>+OK\<close>, \<^verbatim>\<open>:100\<close>, \<^verbatim>\<open>$5 hello\<close>, \<^verbatim>\<open>$-1\<close> and
  \<^verbatim>\<open>-ERR bad\<close>.\<close>

theorem ReadCommand_bare_scalar_witness:
  "LF \<notin> set ''OK'' \<and> LF \<notin> set ''100'' \<and> LF \<notin> set ''5'' \<and> LF \<notin> set ''-1'' \<and> LF \<notin> set ''ERR bad'' \<and>
   ReadCommand (''+OK'' @ [CR, LF]) = Inr ([''OK''], []) \<and>
   ReadCommand ('':100'' @ [CR, LF]) = Inr ([''100''], []) \<and>
   Atoi ''5'' = Some (int (length ''hello'')) \<and> int (length ''hello'') + 2 < 2 ^ 63 \<and>
   ReadCommand (''$5'' @ [CR, LF] @ ''hello'' @ [CR, LF]) = Inr ([''hello''], []) \<and>
   Atoi ''-1'' = Some (- 1) \<and>
   ReadCommand (''$-1'' @ [CR, LF]) = Inr ([[]], []) \<and>
   ReadCommand (''-ERR bad'' @ [CR, LF]) = Inl (ErrorFrame ''ERR bad'')"
proof -
  have a: "LF \<notin> set ''OK''" and b: "LF \<notin> set ''100''" and c: "LF \<notin> set ''5''"
    and d: "LF \<notin> set ''-1''" and e: "LF \<notin> set ''ERR bad''"
    by simp_all
  from ReadCommand_bare_scalar[OF a, where rest = "[]" and bulk = "[]"]
    ReadCommand_bare_scalar[OF b, where rest = "[]" and bulk = "[]"]
    ReadCommand_bare_scalar[OF c, where rest = "[]" and bulk = "''hello''"]
    ReadCommand_bare_scalar[OF d, where rest = "[]" and bulk = "[]"]
    ReadCommand_bare_scalar[OF e, where rest = "[]" and bulk = "[]"]
    a b c d e Atoi_5 Atoi_minus_one
  show ?thesis by simp
qed

text \<open>
  Claim C9 as stated fails for the error frame: \<^verbatim>\<open>-ERR bad\<close> gives an error, not the
  one-element command.
\<close>

theorem ReadCommand_error_frame_fails:
  "ReadCommand (''-ERR bad'' @ [CR, LF]) = Inl (ErrorFrame ''ERR bad'')"
  by (simp add: ReadCommand_def readValue_def readLine_def ReadString_def)

lemma foldl_WriteBulkString:
  "foldl WriteBulkString w elements = w @ concat (map (WriteBulkString []) elements)"
  by (induction elements arbitrary: w) (simp_all add: WriteBulkString_def)

lemma WriteArray_unfold:
  "WriteArray w elements =
     w @ ''*'' @ Itoa (int (length elements)) @ [CR, LF] @ concat (map (WriteBulkString []) elements)"
  by (simp add: WriteArray_def foldl_WriteBulkString)

lemma readValue_WriteBulkString:
  assumes "int (length s) + 2 < 2 ^ 63"
  shows "readValue (WriteBulkString [] s @ rest) = Inr (s, rest)"
proof -
  have "Atoi (Itoa (int (length s))) = Some (int (length s))"
    using assms by (intro Atoi_Itoa) simp_all
  from readBulkString_bulk[OF this assms, of rest] show ?thesis
    by (simp add: readValue_def WriteBulkString_def)
qed

declare readArrayLoop.simps [simp del]

lemma readArrayLoop_encoded:
  "\<forall>e \<in> set es. int (length e) + 2 < 2 ^ 63 \<Longrightarrow> length result = i + length es \<Longrightarrow>
   readArrayLoop i (i + length es) (concat (map (WriteBulkString []) es) @ rest) result =
     Inr (take i result @ es, rest)"
proof (induction es arbitrary: i result)
  case Nil
  then show ?case by (subst readArrayLoop.simps) simp
next
  case (Cons e es)
  from Cons.prems(1) have e: "int (length e) + 2 < 2 ^ 63" by simp
  have rv: "readValue (concat (map (WriteBulkString []) (e # es)) @ rest) =
      Inr (e, concat (map (WriteBulkString []) es) @ rest)"
    using readValue_WriteBulkString[OF e, of "concat (map (WriteBulkString []) es) @ rest"] by simp
  have l: "length (result[i := e]) = Suc i + length es" using Cons.prems(2) by simp
  from Cons.prems(1) have "\<forall>e \<in> set es. int (length e) + 2 < 2 ^ 63" by simp
  from Cons.IH[OF this l, of] have IH:
    "readArrayLoop (Suc i) (Suc i + length es) (concat (map (WriteBulkString []) es) @ rest) (result[i := e])
       = Inr (take (Suc i) (result[i := e]) @ es, rest)" .
  have t: "take (Suc i) (result[i := e]) = take i result @ [e]"
    using Cons.prems(2) by (simp add: take_Suc_conv_app_nth)
  show ?case
    by (subst readArrayLoop.simps) (simp add: rv IH[simplified] t del: concat.simps map_append list.map)
qed

text \<open>
  Claim C7. \<^verbatim>\<open>ReadCommand\<close> on the bytes that \<^verbatim>\<open>WriteArray\<close> writes for a sequence
  of strings gives back exactly that sequence, and leaves unread whatever follows in the
  stream. This holds for all strings, printable or not; the lengths are such as a Go
  \<^verbatim>\<open>int\<close> of 64 bits holds.
\<close>

theorem WriteArray_ReadCommand_round_trip:
  assumes "int (length elements) < 2 ^ 63"
    and "\<forall>e \<in> set elements. int (length e) + 2 < 2 ^ 63"
  shows "ReadCommand (WriteArray [] elements @ rest) = Inr (elements, rest)"
proof -
  let ?n = "int (length elements)"
  have a: "Atoi (Itoa ?n) = Some ?n" using assms(1) by (intro Atoi_Itoa) simp_all
  have "readLine (Itoa ?n @ [CR, LF] @ concat (map (WriteBulkString []) elements) @ rest) =
      Inr (Itoa ?n, concat (map (WriteBulkString []) elements) @ rest)"
    by (rule readLine_line) (simp add: LF_notin_Itoa)
  moreover have "readArrayLoop 0 (0 + length elements)
      (concat (map (WriteBulkString []) elements) @ rest) (replicate (length elements) []) =
      Inr (take 0 (replicate (length elements) []) @ elements, rest)"
    by (rule readArrayLoop_encoded[OF assms(2)]) simp
  ultimately have "readArray (Itoa ?n @ [CR, LF] @ concat (map (WriteBulkString []) elements) @ rest)
      = Inr (elements, rest)"
    using a by (simp add: readArray_def)
  then show ?thesis by (simp add: ReadCommand_def WriteArray_unfold)
qed

lemma Itoa_2: "Itoa 2 = ''2''"
  by (simp add: Itoa_def formatDigits.simps char_of_def bit_Suc_0_iff)

lemma Itoa_4: "Itoa 4 = ''4''"
  by (simp add: Itoa_def formatDigits.simps char_of_def bit_Suc_0_iff)

text \<open>The command \<^verbatim>\<open>VDEL vec1\<close>, with the bytes written for it.\<close>

theorem WriteArray_ReadCommand_round_trip_witness:
  "int (length [''VDEL'', ''vec1'']) < 2 ^ 63 \<and>
   int (length ''VDEL'') + 2 < 2 ^ 63 \<and> int (length ''vec1'') + 2 < 2 ^ 63 \<and>
   WriteArray [] [''VDEL'', ''vec1''] =
     ''*2'' @ [CR, LF] @ ''$4'' @ [CR, LF] @ ''VDEL'' @ [CR, LF] @ ''$4'' @ [CR, LF] @ ''vec1'' @ [CR, LF] \<and>
   ReadCommand (WriteArray [] [''VDEL'', ''vec1'']) = Inr ([''VDEL'', ''vec1''], [])"
proof -
  have 1: "int (length [''VDEL'', ''vec1'']) < 2 ^ 63" by simp
  have 2: "\<forall>e \<in> set [''VDEL'', ''vec1'']. int (length e) + 2 < 2 ^ 63" by simp
  have 3: "WriteArray [] [''VDEL'', ''vec1''] =
     ''*2'' @ [CR, LF] @ ''$4'' @ [CR, LF] @ ''VDEL'' @ [CR, LF] @ ''$4'' @ [CR, LF] @ ''vec1'' @ [CR, LF]"
    by (simp add: WriteArray_def WriteBulkString_def Itoa_2 Itoa_4)
  from WriteArray_ReadCommand_round_trip[OF 1 2, of "[]"] 3 show ?thesis by simp
qed

section \<open>Properties of the vector-literal parser\<close>

lemma whiteSpace_shape:
  "e \<in> set whiteSpace \<Longrightarrow>
     e \<noteq> [] \<and> \<not> cont (hd e) \<and> (\<forall>c \<in> set (tl e). cont c) \<and> length e = width (hd e) \<and>
     CHR '','' \<notin> set e"
  by (auto simp: whiteSpace_def cont_def width_def)

lemma leadingSpace_Some:
  "leadingSpace s = Some e \<Longrightarrow> e \<in> set whiteSpace \<and> s = e @ drop (length e) s"
  unfolding leadingSpace_def
  by (auto simp: find_Some_iff) (metis append_take_drop_id)

lemma leadingSpace_None:
  "leadingSpace s = None \<longleftrightarrow> (\<forall>e \<in> set whiteSpace. take (length e) s \<noteq> e)"
  unfolding leadingSpace_def by (auto simp: find_None_iff)

lemma leadingSpace_append:
  assumes e: "e \<in> set whiteSpace"
  shows "leadingSpace (e @ x) = Some e"
proof (cases "leadingSpace (e @ x)")
  case None
  with e show ?thesis by (auto simp: leadingSpace_None)
next
  case (Some e')
  from leadingSpace_Some[OF this] have e': "e' \<in> set whiteSpace" and p: "e @ x = e' @ drop (length e') (e @ x)"
    by simp_all
  from whiteSpace_shape[OF e] whiteSpace_shape[OF e'] have ne: "e \<noteq> []" "e' \<noteq> []"
    and l: "length e = width (hd e)" "length e' = width (hd e')" by simp_all
  from p ne have "hd e = hd e'" by (metis hd_append2)
  with l have "length e = length e'" by simp
  with p have "e = e'" by (metis append_eq_append_conv)
  with Some show ?thesis by simp
qed

declare TrimLeft.simps [simp del]

declare TrimRight.simps [simp del]

lemma TrimLeft_None: "leadingSpace s = None \<Longrightarrow> TrimLeft s = s"
  by (subst TrimLeft.simps) simp

lemma TrimLeft_Nil [simp]: "TrimLeft [] = []"
  by (subst TrimLeft.simps) (simp split: option.splits)

lemma TrimLeft_space:
  assumes "e \<in> set whiteSpace"
  shows "TrimLeft (e @ x) = TrimLeft x"
  using leadingSpace_append[OF assms, of x] whiteSpace_shape[OF assms]
  by (subst TrimLeft.simps) simp

lemma TrimLeft_spaces: "is_spaces w \<Longrightarrow> TrimLeft (w @ x) = TrimLeft x"
proof -
  have "set es \<subseteq> set whiteSpace \<Longrightarrow> TrimLeft (concat es @ x) = TrimLeft x" for es
    by (induction es) (simp_all add: TrimLeft_space)
  then show "is_spaces w \<Longrightarrow> TrimLeft (w @ x) = TrimLeft x"
    by (auto simp: is_spaces_def)
qed

lemma is_spaces_Nil [simp]: "is_spaces []"
  unfolding is_spaces_def by (rule exI[of _ "[]"]) simp

lemma is_spaces_Cons: "e \<in> set whiteSpace \<Longrightarrow> is_spaces w \<Longrightarrow> is_spaces (e @ w)"
  unfolding is_spaces_def
proof -
  assume e: "e \<in> set whiteSpace" and "\<exists>es. set es \<subseteq> set whiteSpace \<and> w = concat es"
  then obtain es where "set es \<subseteq> set whiteSpace" "w = concat es" by blast
  with e have "set (e # es) \<subseteq> set whiteSpace \<and> e @ w = concat (e # es)" by simp
  then show "\<exists>es. set es \<subseteq> set whiteSpace \<and> e @ w = concat es" by blast
qed

lemma is_spaces_snoc: "is_spaces w \<Longrightarrow> e \<in> set whiteSpace \<Longrightarrow> is_spaces (w @ e)"
  unfolding is_spaces_def
proof -
  assume e: "e \<in> set whiteSpace" and "\<exists>es. set es \<subseteq> set whiteSpace \<and> w = concat es"
  then obtain es where "set es \<subseteq> set whiteSpace" "w = concat es" by blast
  with e have "set (es @ [e]) \<subseteq> set whiteSpace \<and> w @ e = concat (es @ [e])" by simp
  then show "\<exists>es. set es \<subseteq> set whiteSpace \<and> w @ e = concat es" by blast
qed

lemma is_spaces_no_comma: "is_spaces w \<Longrightarrow> CHR '','' \<notin> set w"
  using whiteSpace_shape by (fastforce simp: is_spaces_def)

lemma is_spaces_cases: "is_spaces w \<Longrightarrow> w = [] \<or> (\<exists>e w'. e \<in> set whiteSpace \<and> w = e @ w')"
proof -
  assume "is_spaces w"
  then obtain es where es: "set es \<subseteq> set whiteSpace" "w = concat es" by (auto simp: is_spaces_def)
  show ?thesis
  proof (cases es)
    case Nil
    with es show ?thesis by simp
  next
    case (Cons e es')
    with es show ?thesis by auto
  qed
qed

lemma TrimLeft_decomp: "\<exists>w. is_spaces w \<and> s = w @ TrimLeft s \<and> leadingSpace (TrimLeft s) = None"
proof (induction s rule: TrimLeft.induct)
  case (1 s)
  show ?case
  proof (cases "leadingSpace s")
    case None
    then have "is_spaces [] \<and> s = [] @ TrimLeft s \<and> leadingSpace (TrimLeft s) = None"
      by (simp add: TrimLeft_None)
    then show ?thesis by blast
  next
    case (Some e)
    from leadingSpace_Some[OF Some] have e: "e \<in> set whiteSpace" and s: "s = e @ drop (length e) s"
      by simp_all
    from whiteSpace_shape[OF e] have ne: "e \<noteq> []" by simp
    with s have sne: "s \<noteq> []" by auto
    from "1.IH"[OF Some] sne ne obtain w where w: "is_spaces w"
      "drop (length e) s = w @ TrimLeft (drop (length e) s)"
      "leadingSpace (TrimLeft (drop (length e) s)) = None" by auto
    have t: "TrimLeft s = TrimLeft (drop (length e) s)"
      using TrimLeft_space[OF e, of "drop (length e) s"] s by simp
    have "is_spaces (e @ w)" using is_spaces_Cons[OF e w(1)] .
    moreover have "s = (e @ w) @ TrimLeft s" using s w(2) t by (metis append.assoc)
    ultimately show ?thesis using w(3) t by metis
  qed
qed

lemma trailingSpace_Some:
  "trailingSpace s = Some e \<Longrightarrow> e \<in> set whiteSpace \<and> s = take (length s - length e) s @ e"
  unfolding trailingSpace_def
  by (auto simp: find_Some_iff) (metis append_take_drop_id)

lemma trailingSpace_None:
  "trailingSpace s = None \<longleftrightarrow> (\<forall>e \<in> set whiteSpace. drop (length s - length e) s \<noteq> e)"
  unfolding trailingSpace_def by (auto simp: find_None_iff)

lemma hd_in_tl_append: "us \<noteq> [] \<Longrightarrow> e \<noteq> [] \<Longrightarrow> hd e \<in> set (tl (us @ e))"
  by (cases us) auto

lemma space_suffix_unique:
  assumes e: "e \<in> set whiteSpace" and e': "e' \<in> set whiteSpace" and eq: "e' = us @ e"
  shows "us = []"
proof (rule ccontr)
  assume "us \<noteq> []"
  with whiteSpace_shape[OF e] have "hd e \<in> set (tl (us @ e))" by (simp add: hd_in_tl_append)
  with whiteSpace_shape[OF e'] eq have "cont (hd e)" by simp
  with whiteSpace_shape[OF e] show False by simp
qed

lemma trailingSpace_append:
  assumes e: "e \<in> set whiteSpace"
  shows "trailingSpace (x @ e) = Some e"
proof (cases "trailingSpace (x @ e)")
  case None
  then have "drop (length (x @ e) - length e) (x @ e) \<noteq> e"
    unfolding trailingSpace_None using e by blast
  then show ?thesis by simp
next
  case (Some e')
  from trailingSpace_Some[OF this] obtain z where e': "e' \<in> set whiteSpace" and p: "x @ e = z @ e'"
    by blast
  from p obtain us where "(x = z @ us \<and> us @ e = e') \<or> (x @ us = z \<and> e = us @ e')"
    by (auto simp: append_eq_append_conv2)
  then have "e = e'"
  proof
    assume "x = z @ us \<and> us @ e = e'"
    with space_suffix_unique[OF e e', of us] show ?thesis by auto
  next
    assume "x @ us = z \<and> e = us @ e'"
    with space_suffix_unique[OF e' e, of us] show ?thesis by auto
  qed
  with Some show ?thesis by simp
qed

lemma TrimRight_None: "trailingSpace s = None \<Longrightarrow> TrimRight s = s"
  by (subst TrimRight.simps) simp

lemma TrimRight_Nil [simp]: "TrimRight [] = []"
  by (subst TrimRight.simps) (simp split: option.splits)

lemma TrimRight_space:
  assumes "e \<in> set whiteSpace"
  shows "TrimRight (x @ e) = TrimRight x"
  using trailingSpace_append[OF assms, of x] whiteSpace_shape[OF assms]
  by (subst TrimRight.simps) simp

lemma TrimRight_spaces: "is_spaces w \<Longrightarrow> TrimRight (x @ w) = TrimRight x"
proof -
  have "set es \<subseteq> set whiteSpace \<Longrightarrow> TrimRight (x @ concat es) = TrimRight x" for es
  proof (induction es rule: rev_induct)
    case Nil
    then show ?case by simp
  next
    case (snoc e es)
    from snoc.prems have e: "e \<in> set whiteSpace" and es: "set es \<subseteq> set whiteSpace" by simp_all
    have "TrimRight ((x @ concat es) @ e) = TrimRight (x @ concat es)"
      using e by (rule TrimRight_space)
    with snoc.IH[OF es] show ?case by simp
  qed
  then show "is_spaces w \<Longrightarrow> TrimRight (x @ w) = TrimRight x"
    by (auto simp: is_spaces_def)
qed

lemma TrimRight_decomp: "\<exists>w. is_spaces w \<and> s = TrimRight s @ w"
proof (induction s rule: TrimRight.induct)
  case (1 s)
  show ?case
  proof (cases "trailingSpace s")
    case None
    then have "is_spaces [] \<and> s = TrimRight s @ []" by (simp add: TrimRight_None)
    then show ?thesis by blast
  next
    case (Some e)
    define s' where "s' = take (length s - length e) s"
    from trailingSpace_Some[OF Some] have e: "e \<in> set whiteSpace" and s: "s = s' @ e"
      by (simp_all add: s'_def)
    from whiteSpace_shape[OF e] have ne: "e \<noteq> []" by simp
    with s have sne: "s \<noteq> []" by auto
    from "1.IH"[OF Some] sne ne obtain w where w: "is_spaces w" "s' = TrimRight s' @ w"
      by (auto simp: s'_def)
    have t: "TrimRight s = TrimRight s'" using TrimRight_space[OF e, of s'] s by simp
    have "is_spaces (w @ e)" using is_spaces_snoc[OF w(1) e] .
    moreover have "s = TrimRight s @ (w @ e)" using s w(2) t by (metis append.assoc)
    ultimately show ?thesis by blast
  qed
qed

lemma leadingSpace_cross:
  assumes n: "leadingSpace p = None" and p: "p \<noteq> []" and e: "e \<in> set whiteSpace"
  shows "leadingSpace (p @ e @ y) = None"
  unfolding leadingSpace_None
proof (intro ballI notI)
  fix e' assume e': "e' \<in> set whiteSpace" and t: "take (length e') (p @ e @ y) = e'"
  show False
  proof (cases "length e' \<le> length p")
    case True
    with t have "take (length e') p = e'" by simp
    with n e' show False by (simp add: leadingSpace_None)
  next
    case False
    define r where "r = take (length e' - length p) (e @ y)"
    from False t have eq: "e' = p @ r" by (simp add: r_def)
    from whiteSpace_shape[OF e] have ne: "e \<noteq> []" by simp
    with False have r: "r \<noteq> []" "hd r = hd e" by (auto simp: r_def hd_take)
    from hd_in_tl_append[OF p r(1)] eq r(2) have "hd e \<in> set (tl e')" by simp
    with whiteSpace_shape[OF e'] have "cont (hd e)" by simp
    with whiteSpace_shape[OF e] show False by simp
  qed
qed

lemma TrimLeft_cross:
  assumes w: "is_spaces w"
  shows "TrimLeft (p @ w) = (if TrimLeft p = [] then [] else TrimLeft p @ w)"
proof -
  from TrimLeft_decomp[of p] obtain w0 where w0: "is_spaces w0" "p = w0 @ TrimLeft p"
    "leadingSpace (TrimLeft p) = None" by blast
  define t where "t = TrimLeft p"
  have "p @ w = w0 @ (t @ w)" using w0(2) by (simp add: t_def)
  then have "TrimLeft (p @ w) = TrimLeft (w0 @ (t @ w))" by simp
  also have "\<dots> = TrimLeft (t @ w)" using w0(1) by (rule TrimLeft_spaces)
  finally have 1: "TrimLeft (p @ w) = TrimLeft (t @ w)" .
  show ?thesis
  proof (cases "t = []")
    case True
    have "TrimLeft (w @ []) = TrimLeft []" using w by (rule TrimLeft_spaces)
    with 1 True show ?thesis by (simp add: t_def)
  next
    case False
    have "leadingSpace (t @ w) = None"
    proof -
      from is_spaces_cases[OF w] consider "w = []" | e w' where "e \<in> set whiteSpace" "w = e @ w'"
        by blast
      then show ?thesis
      proof cases
        case 1
        with w0(3) show ?thesis by (simp add: t_def)
      next
        case 2
        with leadingSpace_cross[OF _ False 2(1), of w'] w0(3) show ?thesis by (simp add: t_def)
      qed
    qed
    then have "TrimLeft (t @ w) = t @ w" by (rule TrimLeft_None)
    with 1 False show ?thesis by (simp add: t_def)
  qed
qed

lemma TrimSpace_append_spaces: "is_spaces w \<Longrightarrow> TrimSpace (p @ w) = TrimSpace p"
  by (simp add: TrimSpace_def TrimLeft_cross TrimRight_spaces)

lemma TrimSpace_prepend_spaces: "is_spaces w \<Longrightarrow> TrimSpace (w @ p) = TrimSpace p"
  by (simp add: TrimSpace_def TrimLeft_spaces)

lemma TrimSpace_decomp: "\<exists>w1 w2. is_spaces w1 \<and> is_spaces w2 \<and> s = w1 @ TrimSpace s @ w2"
proof -
  from TrimLeft_decomp[of s] obtain w1 where w1: "is_spaces w1" "s = w1 @ TrimLeft s" by blast
  from TrimRight_decomp[of "TrimLeft s"] obtain w2 where w2: "is_spaces w2"
    "TrimLeft s = TrimRight (TrimLeft s) @ w2" by blast
  from w1 w2 have "s = w1 @ TrimSpace s @ w2" by (simp add: TrimSpace_def)
  with w1(1) w2(1) show ?thesis by blast
qed

lemma TrimSpace_Nil [simp]: "TrimSpace [] = []"
  by (simp add: TrimSpace_def)

lemma Split_nonempty [simp]: "Split s sep \<noteq> []"
  by (induction s) (auto split: list.splits)

lemma Split_prepend:
  "sep \<notin> set w \<Longrightarrow> Split (w @ x) sep = (w @ hd (Split x sep)) # tl (Split x sep)"
proof (induction w)
  case Nil
  then show ?case by simp
next
  case (Cons c w)
  then show ?case by auto
qed

lemma Split_append:
  "sep \<notin> set w \<Longrightarrow> Split (x @ w) sep = butlast (Split x sep) @ [last (Split x sep) @ w]"
proof (induction x)
  case Nil
  with Split_prepend[of sep w "[]"] show ?case by simp
next
  case (Cons c x)
  show ?case
  proof (cases "c = sep")
    case True
    with Cons show ?thesis by simp
  next
    case False
    obtain p ps where s: "Split x sep = p # ps" by (cases "Split x sep") auto
    from Cons have IH: "Split (x @ w) sep = butlast (p # ps) @ [last (p # ps) @ w]" by (simp add: s)
    show ?thesis
    proof (cases ps)
      case Nil
      with IH False s show ?thesis by simp
    next
      case (Cons q qs)
      with IH False s show ?thesis by simp
    qed
  qed
qed

lemma map_TrimSpace_Split_prepend:
  assumes "is_spaces w"
  shows "map TrimSpace (Split (w @ x) CHR '','') = map TrimSpace (Split x CHR '','')"
proof -
  obtain p ps where s: "Split x CHR '','' = p # ps" by (cases "Split x CHR '',''") auto
  from Split_prepend[OF is_spaces_no_comma[OF assms], of x] s
  have "Split (w @ x) CHR '','' = (w @ p) # ps" by simp
  with s TrimSpace_prepend_spaces[OF assms] show ?thesis by simp
qed

lemma map_TrimSpace_Split_append:
  assumes "is_spaces w"
  shows "map TrimSpace (Split (x @ w) CHR '','') = map TrimSpace (Split x CHR '','')"
proof -
  have "Split x CHR '','' = butlast (Split x CHR '','') @ [last (Split x CHR '','')]" by simp
  then have "map TrimSpace (Split x CHR '','') =
      map TrimSpace (butlast (Split x CHR '','')) @ [TrimSpace (last (Split x CHR '',''))]"
    by (metis list.simps(8,9) map_append)
  with Split_append[OF is_spaces_no_comma[OF assms], of x] TrimSpace_append_spaces[OF assms]
  show ?thesis by simp
qed

lemma map_TrimSpace_Split_TrimSpace:
  "map TrimSpace (Split (TrimSpace s) CHR '','') = map TrimSpace (Split s CHR '','')"
proof -
  from TrimSpace_decomp[of s] obtain w1 w2 where w: "is_spaces w1" "is_spaces w2"
    "s = w1 @ TrimSpace s @ w2" by blast
  have "map TrimSpace (Split s CHR '','') = map TrimSpace (Split (w1 @ TrimSpace s @ w2) CHR '','')"
    using w(3) by simp
  also have "\<dots> = map TrimSpace (Split (TrimSpace s @ w2) CHR '','')"
    using w(1) by (rule map_TrimSpace_Split_prepend)
  also have "\<dots> = map TrimSpace (Split (TrimSpace s) CHR '','')"
    using w(2) by (rule map_TrimSpace_Split_append)
  finally show ?thesis by simp
qed

lemma parseParts_spec:
  "parseParts pf parts acc =
     (case spec_elements pf (filter (\<lambda>piece. piece \<noteq> []) (map TrimSpace parts)) of
        Inl err \<Rightarrow> Inl err
      | Inr vals \<Rightarrow> Inr (acc @ vals))"
proof (induction parts arbitrary: acc)
  case Nil
  then show ?case by simp
next
  case (Cons part parts)
  show ?case
  proof (cases "TrimSpace part = []")
    case True
    with Cons show ?thesis by simp
  next
    case False
    with Cons show ?thesis by (simp add: Let_def split: option.splits sum.splits)
  qed
qed

lemma brackets_iff:
  "(length t < 2 \<or> t ! 0 \<noteq> CHR ''['' \<or> t ! (length t - 1) \<noteq> CHR '']'') \<longleftrightarrow>
   \<not> (t \<noteq> [] \<and> hd t = CHR ''['' \<and> last t = CHR '']'')"
proof (cases t)
  case Nil
  then show ?thesis by simp
next
  case (Cons c cs)
  show ?thesis
  proof (cases cs)
    case Nil
    with Cons show ?thesis by auto
  next
    case (Cons d ds)
    with \<open>t = c # cs\<close> show ?thesis by (simp add: last_conv_nth)
  qed
qed

lemma interior_eq: "take (length t - 1 - 1) (drop 1 t) = butlast (tl t)"
  by (simp add: butlast_conv_take drop_Suc)

lemma FastVectorParser_unfold:
  "FastVectorParser parseFloat s =
     (if length (TrimSpace s) < 2 \<or> TrimSpace s ! 0 \<noteq> CHR ''[''
         \<or> TrimSpace s ! (length (TrimSpace s) - 1) \<noteq> CHR '']''
      then Inl NotEnclosedInBrackets
      else if TrimSpace (butlast (tl (TrimSpace s))) = [] then Inr []
      else parseParts parseFloat (Split (TrimSpace (butlast (tl (TrimSpace s)))) CHR '','') [])"
  unfolding FastVectorParser_def Let_def interior_eq by auto

lemma TrimLeft_Some: "leadingSpace s = Some e \<Longrightarrow> TrimLeft s = TrimLeft (drop (length e) s)"
proof -
  assume a: "leadingSpace s = Some e"
  from leadingSpace_Some[OF a] whiteSpace_shape[of e] have "e \<noteq> []" "s \<noteq> []" by auto
  with a show ?thesis by (subst TrimLeft.simps) simp
qed

lemma TrimRight_Some:
  "trailingSpace s = Some e \<Longrightarrow> TrimRight s = TrimRight (take (length s - length e) s)"
proof -
  assume a: "trailingSpace s = Some e"
  from trailingSpace_Some[OF a] whiteSpace_shape[of e] have "e \<noteq> []" "s \<noteq> []" by auto
  with a show ?thesis by (subst TrimRight.simps) simp
qed

lemmas trim_eval = TrimSpace_def TrimLeft_None TrimLeft_Some TrimRight_None TrimRight_Some
  leadingSpace_def trailingSpace_def whiteSpace_def

lemma parse_empty: "FastVectorParser pf ''[]'' = Inr []"
  by (simp add: FastVectorParser_unfold trim_eval)

lemma parse_blank: "FastVectorParser pf ''[ ]'' = Inr []"
  by (simp add: FastVectorParser_unfold trim_eval)

lemma parse_doubled_comma:
  "pf ''0.1'' = Some a \<Longrightarrow> pf ''0.2'' = Some b \<Longrightarrow> FastVectorParser pf ''[0.1,,0.2]'' = Inr [a, b]"
  by (simp add: FastVectorParser_unfold trim_eval)

lemma parse_invalid:
  "pf ''abc'' = None \<Longrightarrow> FastVectorParser pf ''[abc]'' = Inl (InvalidVectorElement ''abc'')"
  by (simp add: FastVectorParser_unfold trim_eval)

lemma parse_spaced:
  "pf ''0.1'' = Some a \<Longrightarrow> pf ''0.2'' = Some b \<Longrightarrow>
   FastVectorParser pf ''  [ 0.1 , 0.2 ] '' = Inr [a, b]"
  by (simp add: FastVectorParser_unfold trim_eval)

lemma parse_no_brackets: "FastVectorParser pf ''0.1, 0.2'' = Inl NotEnclosedInBrackets"
  by (simp add: FastVectorParser_unfold trim_eval)

text \<open>
  Claim C6. For every input and every behaviour of \<^verbatim>\<open>strconv.ParseFloat\<close>,
  \<^verbatim>\<open>FastVectorParser\<close> computes what the specification says: the trimmed input must
  start with an opening and end with a closing bracket, else the parse fails; what is
  between the brackets is split on commas, each piece is trimmed, empty pieces are skipped,
  the first remaining piece that is no number fails the parse and is named in the error,
  and otherwise the numbers are returned in order. So \<^verbatim>\<open>[]\<close> and \<^verbatim>\<open>[ ]\<close> give the
  empty sequence, \<^verbatim>\<open>[0.1,,0.2]\<close> gives two elements, and \<^verbatim>\<open>[abc]\<close> fails naming
  \<^verbatim>\<open>abc\<close>.
\<close>

theorem FastVectorParser_correct:
  "FastVectorParser parseFloat s = spec_FastVectorParser parseFloat s \<and>
   FastVectorParser parseFloat ''[]'' = Inr [] \<and>
   FastVectorParser parseFloat ''[ ]'' = Inr [] \<and>
   (parseFloat ''0.1'' = Some a \<and> parseFloat ''0.2'' = Some b \<longrightarrow>
      FastVectorParser parseFloat ''[0.1,,0.2]'' = Inr [a, b]) \<and>
   (parseFloat ''abc'' = None \<longrightarrow>
      FastVectorParser parseFloat ''[abc]'' = Inl (InvalidVectorElement ''abc''))"
proof -
  have refines: "FastVectorParser parseFloat s = spec_FastVectorParser parseFloat s"
  proof -
    define t where "t = TrimSpace s"
    show ?thesis
    proof (cases "t \<noteq> [] \<and> hd t = CHR ''['' \<and> last t = CHR '']''")
      case False
      with brackets_iff[of t] have "length t < 2 \<or> t ! 0 \<noteq> CHR ''['' \<or> t ! (length t - 1) \<noteq> CHR '']''"
        by simp
      then have "FastVectorParser parseFloat s = Inl NotEnclosedInBrackets"
        unfolding FastVectorParser_unfold t_def by simp
      moreover from False have "spec_FastVectorParser parseFloat s = Inl NotEnclosedInBrackets"
        by (simp add: spec_FastVectorParser_def Let_def t_def)
      ultimately show ?thesis by simp
    next
      case True
      with brackets_iff[of t] have b: "\<not> length t < 2" "t ! 0 = CHR ''[''" "t ! (length t - 1) = CHR '']''"
        by auto
      define inner where "inner = butlast (tl t)"
      define pieces where "pieces = filter (\<lambda>piece. piece \<noteq> []) (map TrimSpace (Split inner CHR '',''))"
      have sp: "spec_FastVectorParser parseFloat s = spec_elements parseFloat pieces"
        using True by (simp add: spec_FastVectorParser_def Let_def t_def pieces_def inner_def)
      have m: "map TrimSpace (Split (TrimSpace inner) CHR '','') = map TrimSpace (Split inner CHR '','')"
        by (rule map_TrimSpace_Split_TrimSpace)
      show ?thesis
      proof (cases "TrimSpace inner = []")
        case e: True
        with m have "pieces = []" by (simp add: pieces_def flip: m)
        moreover have "FastVectorParser parseFloat s = Inr []"
          using b e unfolding FastVectorParser_unfold t_def inner_def by simp
        ultimately show ?thesis using sp by simp
      next
        case ne: False
        have "FastVectorParser parseFloat s = parseParts parseFloat (Split (TrimSpace inner) CHR '','') []"
          using b ne unfolding FastVectorParser_unfold t_def inner_def by simp
        also have "\<dots> = (case spec_elements parseFloat pieces of Inl err \<Rightarrow> Inl err | Inr vals \<Rightarrow> Inr vals)"
          by (simp add: parseParts_spec m pieces_def cong: sum.case_cong)
        also have "\<dots> = spec_elements parseFloat pieces"
          by (simp split: sum.splits)
        finally show ?thesis using sp by simp
      qed
    qed
  qed
  from refines parse_empty[of parseFloat] parse_blank[of parseFloat]
    parse_doubled_comma[of parseFloat a b] parse_invalid[of parseFloat]
  show ?thesis by blast
qed

text \<open>The inputs of the repository's tests, with the example \<open>parseFloat\<close>.\<close>

theorem FastVectorParser_correct_witness:
  "example_parseFloat ''0.1'' = Some (1 / 10) \<and> example_parseFloat ''0.2'' = Some (2 / 10) \<and>
   example_parseFloat ''abc'' = None \<and>
   FastVectorParser example_parseFloat ''  [ 0.1 , 0.2 ] '' =
     spec_FastVectorParser example_parseFloat ''  [ 0.1 , 0.2 ] '' \<and>
   FastVectorParser example_parseFloat ''  [ 0.1 , 0.2 ] '' = Inr [1 / 10, 2 / 10] \<and>
   FastVectorParser example_parseFloat ''[0.1,,0.2]'' = Inr [1 / 10, 2 / 10] \<and>
   FastVectorParser example_parseFloat ''[abc]'' = Inl (InvalidVectorElement ''abc'') \<and>
   FastVectorParser example_parseFloat ''0.1, 0.2'' = Inl NotEnclosedInBrackets"
proof -
  have p: "example_parseFloat ''0.1'' = Some (1 / 10)" "example_parseFloat ''0.2'' = Some (2 / 10)"
    "example_parseFloat ''abc'' = None"
    by (simp_all add: example_parseFloat_def)
  from FastVectorParser_correct[of example_parseFloat "''  [ 0.1 , 0.2 ] ''" "1 / 10" "2 / 10"]
    p parse_spaced[OF p(1,2)] parse_no_brackets[of example_parseFloat]
  show ?thesis by simp
qed

end
